theory Spec2Isabelle
  imports Main "HOL-Library.Char_ord" "HOL-Library.List_Lexorder" "HOL-Library.Product_Lexorder"
begin

section \<open>JavaScript values and objects\<close>

text \<open>
  The data layer (data.js) moves plain JavaScript objects between IndexedDB and
  the Sheets gateway.  A field value is a primitive; numbers are modelled as
  integers (timestamps, row indexes, generated keys).  An object is a finite
  map from property names to values; reading an absent property gives
  \<open>undefined\<close>.
\<close>

datatype jsval = JUndef | JNull | JBool bool | JNum int | JStr string

type_synonym obj = "string \<rightharpoonup> jsval"

definition getf :: "obj \<Rightarrow> string \<Rightarrow> jsval" where
  "getf ob k = (case ob k of None \<Rightarrow> JUndef | Some v \<Rightarrow> v)"

section \<open>Column table and the positional row encoding\<close>

definition COLUMNS :: "string \<Rightarrow> string list option" where
  "COLUMNS sheet =
    (if sheet = ''health'' then Some [''date'', ''weight_kg'', ''bmi'', ''bp_systolic'', ''bp_diastolic'', ''heart_rate'', ''blood_sugar'', ''notes'']
     else if sheet = ''medications'' then Some [''date'', ''name'', ''dosage'', ''time'', ''category'', ''taken'']
     else if sheet = ''appointments'' then Some [''date'', ''time'', ''doctor'', ''specialty'', ''location'', ''notes'']
     else if sheet = ''fitness'' then Some [''date'', ''type'', ''exercise'', ''duration_min'', ''sets'', ''reps'', ''weight_kg'', ''calories_burned'', ''notes'']
     else if sheet = ''nutrition'' then Some [''date'', ''meal'', ''food'', ''calories'', ''protein_g'', ''carbs_g'', ''fat_g'', ''fiber_g'', ''notes'']
     else if sheet = ''water'' then Some [''date'', ''time'', ''amount_ml'']
     else if sheet = ''sleep'' then Some [''date'', ''bedtime'', ''wake_time'', ''hours'', ''quality'', ''notes'']
     else if sheet = ''mood'' then Some [''date'', ''time'', ''mood'', ''stress'', ''energy'', ''gratitude'', ''notes'']
     else if sheet = ''meditation'' then Some [''date'', ''duration_min'', ''type'', ''notes'']
     else if sheet = ''habits'' then Some [''date'', ''habit_id'', ''completed'']
     else if sheet = ''habit_defs'' then Some [''id'', ''name'', ''icon'', ''category'', ''target'', ''active'']
     else if sheet = ''goals'' then Some [''id'', ''type'', ''title'', ''target'', ''current'', ''deadline'', ''status'']
     else if sheet = ''profile'' then Some [''key'', ''value'']
     else None)"

text \<open>
  \<open>rowArrayToObject\<close>: the \<open>for\<close> loop over the column indexes, assigning
  \<open>arr[i]\<close> while \<open>i < arr.length\<close> and \<open>null\<close> beyond; \<open>null\<close> (here
  \<open>None\<close>) for a sheet without columns.
\<close>

definition rowArrayToObject_cols :: "string list \<Rightarrow> jsval list \<Rightarrow> obj" where
  "rowArrayToObject_cols cols arr =
     fold (\<lambda>i ob. ob(cols ! i \<mapsto> (if i < length arr then arr ! i else JNull)))
          [0..<length cols] Map.empty"

definition rowArrayToObject :: "string \<Rightarrow> jsval list \<Rightarrow> obj option" where
  "rowArrayToObject sheet arr =
     (case COLUMNS sheet of None \<Rightarrow> None
      | Some cols \<Rightarrow> Some (rowArrayToObject_cols cols arr))"

text \<open>\<open>objectToRowArray\<close>: one cell per column, \<open>''\<close> for undefined or null.\<close>

definition cell_of :: "obj \<Rightarrow> string \<Rightarrow> jsval" where
  "cell_of ob c = (if getf ob c \<noteq> JUndef \<and> getf ob c \<noteq> JNull then getf ob c else JStr [])"

definition objectToRowArray :: "string \<Rightarrow> obj \<Rightarrow> jsval list" where
  "objectToRowArray sheet ob =
     (case COLUMNS sheet of None \<Rightarrow> [] | Some cols \<Rightarrow> map (cell_of ob) cols)"

section \<open>JavaScript operators used by the data layer\<close>

definition truthy :: "jsval \<Rightarrow> bool" where
  "truthy v = (case v of JUndef \<Rightarrow> False | JNull \<Rightarrow> False | JBool b \<Rightarrow> b
               | JNum n \<Rightarrow> n \<noteq> 0 | JStr s \<Rightarrow> s \<noteq> [])"

text \<open>\<open>a || b\<close>\<close>

definition js_or :: "jsval \<Rightarrow> jsval \<Rightarrow> jsval" where
  "js_or a b = (if truthy a then a else b)"

fun digits_of :: "nat \<Rightarrow> string" where
  "digits_of n = (if n < 10 then [char_of (48 + n)]
                  else digits_of (n div 10) @ [char_of (48 + n mod 10)])"

text \<open>\<open>String(v)\<close>\<close>

definition js_String :: "jsval \<Rightarrow> string" where
  "js_String v = (case v of JUndef \<Rightarrow> ''undefined'' | JNull \<Rightarrow> ''null''
                  | JBool b \<Rightarrow> (if b then ''true'' else ''false'')
                  | JNum n \<Rightarrow> (if n < 0 then CHR ''-'' # digits_of (nat (- n)) else digits_of (nat n))
                  | JStr s \<Rightarrow> s)"

text \<open>
  Conversion of a string to a number, for the integers of this model: blanks
  around the literal are dropped, the empty string is 0, an optionally signed
  run of decimal digits is its value, anything else is NaN (\<open>None\<close>).
  Literals with a fraction, an exponent or a radix prefix denote numbers this
  model does not have; the data layer itself only ever compares the integer
  time stamps it wrote.
\<close>

definition is_blank :: "char \<Rightarrow> bool" where
  "is_blank c = (c = CHR '' '' \<or> c = CHR 0x09 \<or> c = CHR 0x0A \<or> c = CHR 0x0D)"

definition is_digit :: "char \<Rightarrow> bool" where
  "is_digit c = (CHR ''0'' \<le> c \<and> c \<le> CHR ''9'')"

definition digits_value :: "string \<Rightarrow> nat" where
  "digits_value ds = foldl (\<lambda>acc c. 10 * acc + (of_char c - 48)) 0 ds"

definition unsigned_to_num :: "string \<Rightarrow> int option" where
  "unsigned_to_num ds = (if ds \<noteq> [] \<and> list_all is_digit ds then Some (int (digits_value ds)) else None)"

definition str_to_num :: "string \<Rightarrow> int option" where
  "str_to_num s =
     (let t = rev (dropWhile is_blank (rev (dropWhile is_blank s))) in
      case t of [] \<Rightarrow> Some 0
      | c # cs \<Rightarrow> (if c = CHR ''-'' then map_option uminus (unsigned_to_num cs)
                   else if c = CHR ''+'' then unsigned_to_num cs
                   else unsigned_to_num t))"

definition to_number :: "jsval \<Rightarrow> int option" where
  "to_number v = (case v of JUndef \<Rightarrow> None | JNull \<Rightarrow> Some 0
                  | JBool b \<Rightarrow> Some (if b then 1 else 0)
                  | JNum n \<Rightarrow> Some n | JStr s \<Rightarrow> str_to_num s)"

text \<open>\<open>a > b\<close>: two strings compare as strings, anything else as numbers; NaN compares false.\<close>

definition js_gt :: "jsval \<Rightarrow> jsval \<Rightarrow> bool" where
  "js_gt a b =
     (case (a, b) of
        (JStr s, JStr t) \<Rightarrow> t < s
      | _ \<Rightarrow> (case (to_number a, to_number b) of
                (Some m, Some n) \<Rightarrow> n < m
              | _ \<Rightarrow> False))"

section \<open>Constants of the data layer\<close>

definition ALL_STORES :: "string list" where
  "ALL_STORES = [''health'', ''medications'', ''appointments'', ''fitness'', ''nutrition'',
                 ''water'', ''sleep'', ''mood'', ''meditation'', ''habits'', ''habit_defs'',
                 ''goals'', ''profile'', ''sync_queue'']"

definition DATE_INDEXED_STORES :: "string list" where
  "DATE_INDEXED_STORES = [''health'', ''medications'', ''appointments'', ''fitness'', ''nutrition'',
                          ''water'', ''sleep'', ''mood'', ''meditation'', ''habits'']"

definition MAX_RETRIES :: nat where
  "MAX_RETRIES = 3"

section \<open>The IndexedDB object stores\<close>

text \<open>
  Every object store of \<open>_openDB\<close> uses in-line keys: the key of a record is the
  value of its key-path property (\<open>key\<close> for \<open>profile\<close>, \<open>id\<close> elsewhere),
  and every store but \<open>profile\<close> has a key generator.  A table is the list of
  its records in ascending key order together with the generator's current
  number.  Valid keys of this model are numbers and strings; numbers sort
  before strings.
\<close>

datatype idb_error = NotFoundError | DataError | ConstraintError | NetworkError | Unmodelled

record table =
  t_rows :: "obj list"
  t_keygen :: int

definition valid_key :: "jsval \<Rightarrow> bool" where
  "valid_key k = (case k of JNum n \<Rightarrow> True | JStr s \<Rightarrow> True | _ \<Rightarrow> False)"

definition key_enc :: "jsval \<Rightarrow> nat \<times> int \<times> string" where
  "key_enc k = (case k of JNum n \<Rightarrow> (0, n, []) | JStr s \<Rightarrow> (1, 0, s) | _ \<Rightarrow> (2, 0, []))"

definition keyPath :: "string \<Rightarrow> string" where
  "keyPath sheet = (if sheet = ''profile'' then ''key'' else ''id'')"

definition autoIncrement :: "string \<Rightarrow> bool" where
  "autoIncrement sheet = (sheet \<noteq> ''profile'')"

text \<open>
  IndexedDB keeps a record only under a valid key, so every record of a table
  carries one; the writes below keep it so.
\<close>

definition keys_valid :: "string \<Rightarrow> table \<Rightarrow> bool" where
  "keys_valid kp t = list_all (\<lambda>r. valid_key (getf r kp)) (t_rows t)"

text \<open>\<open>store.get(key)\<close>\<close>

definition store_get :: "string \<Rightarrow> jsval \<Rightarrow> table \<Rightarrow> idb_error + obj option" where
  "store_get kp k t =
     (if valid_key k then Inr (find (\<lambda>r. getf r kp = k) (t_rows t)) else Inl DataError)"

text \<open>
  \<open>store.add(value)\<close> (\<open>ovw = False\<close>) and \<open>store.put(value)\<close> (\<open>ovw = True\<close>):
  the key is read from the key path; an absent or undefined property asks the
  generator for a key, which is written into the stored record; a value that
  is not a valid key raises DataError; \<open>add\<close> on an existing key raises
  ConstraintError.  The result is the key and the new table.
\<close>

definition write_key :: "string \<Rightarrow> obj \<Rightarrow> table \<Rightarrow> jsval" where
  "write_key kp r t = (if getf r kp = JUndef then JNum (t_keygen t) else getf r kp)"

definition stored_as :: "string \<Rightarrow> jsval \<Rightarrow> obj \<Rightarrow> obj" where
  "stored_as kp k r = (if getf r kp = JUndef then r(kp \<mapsto> k) else r)"

definition next_keygen :: "string \<Rightarrow> bool \<Rightarrow> obj \<Rightarrow> table \<Rightarrow> int" where
  "next_keygen kp autoinc r t =
     (if \<not> autoinc then t_keygen t
      else if getf r kp = JUndef then t_keygen t + 1
      else (case getf r kp of JNum n \<Rightarrow> max (t_keygen t) (n + 1) | _ \<Rightarrow> t_keygen t))"

definition store_write :: "bool \<Rightarrow> string \<Rightarrow> bool \<Rightarrow> obj \<Rightarrow> table \<Rightarrow> idb_error + (jsval \<times> table)" where
  "store_write ovw kp autoinc r t =
     (if getf r kp = JUndef \<and> \<not> autoinc then Inl DataError
      else if getf r kp \<noteq> JUndef \<and> \<not> valid_key (getf r kp) then Inl DataError
      else
        let k = write_key kp r t;
            r' = stored_as kp k r;
            g = next_keygen kp autoinc r t
        in if list_ex (\<lambda>x. getf x kp = k) (t_rows t)
           then (if ovw
                 then Inr (k, \<lparr>t_rows = map (\<lambda>x. if getf x kp = k then r' else x) (t_rows t), t_keygen = g\<rparr>)
                 else Inl ConstraintError)
           else Inr (k, \<lparr>t_rows = insort_key (\<lambda>x. key_enc (getf x kp)) r' (t_rows t), t_keygen = g\<rparr>))"

text \<open>\<open>store.delete(key)\<close>\<close>

definition store_delete :: "string \<Rightarrow> jsval \<Rightarrow> table \<Rightarrow> idb_error + table" where
  "store_delete kp k t =
     (if valid_key k then Inr (t\<lparr>t_rows := filter (\<lambda>r. getf r kp \<noteq> k) (t_rows t)\<rparr>)
      else Inl DataError)"

text \<open>
  The \<open>date\<close> index holds the records whose \<open>date\<close> is a valid key, ordered by
  that key and then by primary key.  \<open>index.getAll(IDBKeyRange.bound(lo, hi))\<close>
  raises DataError for an invalid bound or \<open>lo > hi\<close>; \<open>index.getAll(key)\<close>
  is the range from the key to itself.
\<close>

definition index_getAll :: "jsval \<Rightarrow> jsval \<Rightarrow> table \<Rightarrow> idb_error + obj list" where
  "index_getAll lo hi t =
     (if \<not> valid_key lo \<or> \<not> valid_key hi \<or> key_enc hi < key_enc lo then Inl DataError
      else Inr (sort_key (\<lambda>r. key_enc (getf r ''date''))
                  (filter (\<lambda>r. valid_key (getf r ''date'')
                                \<and> key_enc lo \<le> key_enc (getf r ''date'')
                                \<and> key_enc (getf r ''date'') \<le> key_enc hi) (t_rows t))))"

section \<open>Sync queue, gateway and the state of the data store\<close>

text \<open>
  A sync queue entry as \<open>_enqueue\<close> builds it; \<open>e_id\<close> is the key the
  \<open>sync_queue\<close> store generates.  The store's generator stays ahead of every
  key it holds, so the \<open>add\<close> of \<open>_enqueue\<close> does not collide.
\<close>

record entry =
  e_id :: nat
  e_sheet :: string
  e_action :: string
  e_data :: obj
  e_rowIndex :: jsval
  e_timestamp :: int
  e_retries :: nat

text \<open>
  The requests the client issues: the four POST actions of \<open>_pushToSheets\<close> with
  their bodies, and the GET of \<open>_pullFromSheets\<close> with its optional bounds.
\<close>

datatype request =
    ReqAppend string "jsval list list"
  | ReqWrite string "jsval list list"
  | ReqUpdate string jsval "jsval list"
  | ReqDelete string jsval
  | ReqRead string "jsval option" "jsval option"

text \<open>
  \<open>_postToSheets\<close> returns \<open>json.success === true\<close> or throws;
  the read either throws or yields \<open>json.success\<close> and \<open>json.data\<close>
  (\<open>None\<close> when it is not an array).
\<close>

datatype post_result = Returned bool | Threw

datatype read_result = ReadThrew | ReadJson bool "jsval list list option"

text \<open>
  A gateway call of the trace: a POST made while pushing the queue entry with
  the given id, with its outcome, or a read.
\<close>

datatype gwcall = Posted nat request post_result | Fetched request

text \<open>
  What lies outside the program (clock, connectivity, remote gateway) is a
  state \<open>'w\<close> of its own, advanced by each observation.
\<close>

record 'w runtime =
  rt_now :: "'w \<Rightarrow> int \<times> 'w"
  rt_today :: "'w \<Rightarrow> string \<times> 'w"
  rt_online :: "'w \<Rightarrow> bool \<times> 'w"
  rt_post :: "request \<Rightarrow> 'w \<Rightarrow> post_result \<times> 'w"
  rt_read :: "request \<Rightarrow> 'w \<Rightarrow> read_result \<times> 'w"

text \<open>
  The record stores by sheet name, the \<open>sync_queue\<close> store (entries in
  ascending id order, and its key generator), the configured script URL, the
  gateway calls issued so far and the outside world.  The queue holds what
  \<open>_enqueue\<close> puts there.  Using the record API on the name \<open>sync_queue\<close>
  itself, whose store holds entries and not records, is outside this model:
  \<open>open_store\<close> answers \<open>Unmodelled\<close> for it, and the results below
  about the contents of the queue are stated for queues none of whose entries
  names that store.
\<close>

record 'w state =
  tables :: "string \<Rightarrow> table"
  queue :: "entry list"
  queue_gen :: nat
  scriptUrl :: "string option"
  sent :: "gwcall list"
  world :: 'w

text \<open>The key invariant over all the record stores of a state.\<close>

definition stores_valid :: "'w state \<Rightarrow> bool" where
  "stores_valid st = (\<forall>sheet. keys_valid (keyPath sheet) (tables st sheet))"

text \<open>
  The \<open>sync_queue\<close> store as the program keeps it: its keys are distinct and
  come from its generator, and every entry was queued for a record store.
\<close>

definition queue_ok :: "'w state \<Rightarrow> bool" where
  "queue_ok st = (distinct (map e_id (queue st))
                  \<and> list_all (\<lambda>x. e_id x < queue_gen st \<and> e_sheet x \<noteq> ''sync_queue'') (queue st))"

text \<open>\<open>db.transaction(sheet, ...)\<close>\<close>

definition open_store :: "string \<Rightarrow> idb_error + unit" where
  "open_store sheet =
     (if sheet = ''sync_queue'' then Inl Unmodelled
      else if sheet \<in> set ALL_STORES then Inr ()
      else Inl NotFoundError)"

definition has_url :: "'w state \<Rightarrow> bool" where
  "has_url st = (case scriptUrl st of None \<Rightarrow> False | Some u \<Rightarrow> u \<noteq> [])"

subsection \<open>Sync queue helpers\<close>

definition enqueue :: "'w runtime \<Rightarrow> string \<Rightarrow> string \<Rightarrow> obj \<Rightarrow> jsval \<Rightarrow> 'w state \<Rightarrow> 'w state" where
  "enqueue rt sheet action dat rowIdx st =
     (let (ts, w) = rt_now rt (world st);
          ent = \<lparr>e_id = queue_gen st, e_sheet = sheet, e_action = action, e_data = dat,
                 e_rowIndex = js_or rowIdx JNull, e_timestamp = ts, e_retries = 0\<rparr>
      in st\<lparr>queue := insort_key e_id ent (queue st), queue_gen := Suc (queue_gen st), world := w\<rparr>)"

definition removeFromQueue :: "nat \<Rightarrow> 'w state \<Rightarrow> 'w state" where
  "removeFromQueue queueId st = st\<lparr>queue := filter (\<lambda>e. e_id e \<noteq> queueId) (queue st)\<rparr>"

text \<open>\<open>item.retries = (currentRetries || 0) + 1\<close> on the stored entry, when it is there.\<close>

definition incrementRetries :: "nat \<Rightarrow> nat \<Rightarrow> 'w state \<Rightarrow> 'w state" where
  "incrementRetries queueId currentRetries st =
     st\<lparr>queue := map (\<lambda>e. if e_id e = queueId
                            then e\<lparr>e_retries := (if currentRetries \<noteq> 0 then currentRetries else 0) + 1\<rparr>
                            else e) (queue st)\<rparr>"

text \<open>
  \<open>_markSynced\<close>: nothing without \<open>data.id\<close>; otherwise the record under the
  key gets \<open>_synced = true\<close>; every storage error is swallowed.
\<close>

definition markSynced :: "string \<Rightarrow> obj \<Rightarrow> 'w state \<Rightarrow> 'w state" where
  "markSynced sheet dat st =
     (if getf dat ''id'' = JUndef then st
      else case open_store sheet of Inl e \<Rightarrow> st
      | Inr u \<Rightarrow>
         (let k = (if sheet = ''profile'' then getf dat ''key'' else getf dat ''id'') in
          case store_get (keyPath sheet) k (tables st sheet) of
            Inl e \<Rightarrow> st
          | Inr None \<Rightarrow> st
          | Inr (Some r) \<Rightarrow>
              (case store_write True (keyPath sheet) (autoIncrement sheet)
                      (r(''_synced'' \<mapsto> JBool True)) (tables st sheet) of
                 Inl e \<Rightarrow> st
               | Inr (k', t') \<Rightarrow> st\<lparr>tables := (tables st)(sheet := t')\<rparr>)))"

text \<open>\<open>_purgeDeleted\<close>: physical removal by key; storage errors are swallowed.\<close>

definition purgeDeleted :: "string \<Rightarrow> obj \<Rightarrow> 'w state \<Rightarrow> 'w state" where
  "purgeDeleted sheet dat st =
     (let k = (if sheet = ''profile'' then getf dat ''key'' else getf dat ''id'') in
      if k = JUndef then st
      else case open_store sheet of Inl e \<Rightarrow> st
      | Inr u \<Rightarrow>
         (case store_delete (keyPath sheet) k (tables st sheet) of
            Inl e \<Rightarrow> st
          | Inr t' \<Rightarrow> st\<lparr>tables := (tables st)(sheet := t')\<rparr>))"

subsection \<open>Public API: get, save, delete\<close>

record options =
  opt_from :: jsval
  opt_to :: jsval
  opt_date :: jsval
  opt_limit :: jsval

text \<open>
  \<open>get\<close> serves from the local store.  The background pull it may schedule when
  the range is stale runs as a task of its own (\<open>pullFromSheets\<close> below) and
  is not part of the value returned.
\<close>

definition get :: "string \<Rightarrow> options \<Rightarrow> 'w state \<Rightarrow> idb_error + obj list" where
  "get sheet opts st =
     (case open_store sheet of Inl e \<Rightarrow> Inl e
      | Inr u \<Rightarrow>
        (let from = js_or (opt_date opts) (js_or (opt_from opts) JNull);
             to = js_or (opt_date opts) (js_or (opt_to opts) JNull);
             found = (if truthy from \<and> truthy to \<and> sheet \<in> set DATE_INDEXED_STORES
                      then index_getAll from to (tables st sheet)
                      else Inr (t_rows (tables st sheet)))
         in case found of Inl e \<Rightarrow> Inl e
            | Inr results \<Rightarrow>
               (let live = filter (\<lambda>r. \<not> truthy (getf r ''_deleted'')) results
                in Inr (if truthy (opt_limit opts) \<and> js_gt (opt_limit opts) (JNum 0)
                        then (case to_number (opt_limit opts) of
                                Some n \<Rightarrow> take (nat n) live | None \<Rightarrow> [])
                        else live))))"

text \<open>
  \<open>save\<close>: stamp, \<open>store.add\<close>, set the generated id on the record, enqueue an
  \<open>append\<close>.  The sync it then triggers when online is fire-and-forget: it is
  a later \<open>syncNow\<close> on the state \<open>save\<close> leaves.  A storage error leaves the
  stores as they were.
\<close>

definition save :: "'w runtime \<Rightarrow> string \<Rightarrow> obj \<Rightarrow> 'w state \<Rightarrow> (idb_error + obj) \<times> 'w state" where
  "save rt sheet row st =
     (let (now, w) = rt_now rt (world st);
          st1 = st\<lparr>world := w\<rparr>;
          rec = row ++ [''_synced'' \<mapsto> JBool False, ''_modified'' \<mapsto> JNum now, ''_deleted'' \<mapsto> JBool False]
      in case open_store sheet of Inl e \<Rightarrow> (Inl e, st1)
         | Inr u \<Rightarrow>
           (case store_write False (keyPath sheet) (autoIncrement sheet) rec (tables st1 sheet) of
              Inl e \<Rightarrow> (Inl e, st1)
            | Inr (k, t') \<Rightarrow>
               (let rec' = rec(''id'' \<mapsto> k);
                    st2 = st1\<lparr>tables := (tables st1)(sheet := t')\<rparr>
                in (Inr rec', enqueue rt sheet ''append'' rec' JUndef st2))))"

text \<open>\<open>delete\<close>: soft delete of an existing record and a queued \<open>delete\<close>.\<close>

definition delete :: "'w runtime \<Rightarrow> string \<Rightarrow> jsval \<Rightarrow> 'w state \<Rightarrow> (idb_error + bool) \<times> 'w state" where
  "delete rt sheet ident st =
     (case open_store sheet of Inl e \<Rightarrow> (Inl e, st)
      | Inr u \<Rightarrow>
        (case store_get (keyPath sheet) ident (tables st sheet) of
           Inl e \<Rightarrow> (Inl e, st)
         | Inr None \<Rightarrow> (Inr False, st)
         | Inr (Some existing) \<Rightarrow>
            (let (now, w) = rt_now rt (world st);
                 st1 = st\<lparr>world := w\<rparr>;
                 deleted = existing ++ [''_deleted'' \<mapsto> JBool True, ''_synced'' \<mapsto> JBool False,
                                        ''_modified'' \<mapsto> JNum now]
             in case store_write True (keyPath sheet) (autoIncrement sheet) deleted (tables st1 sheet) of
                  Inl e \<Rightarrow> (Inl e, st1)
                | Inr (k, t') \<Rightarrow>
                    (Inr True,
                     enqueue rt sheet ''delete'' deleted (js_or (getf deleted ''_rowIndex'') JNull)
                       (st1\<lparr>tables := (tables st1)(sheet := t')\<rparr>)))))"

section \<open>Sync engine\<close>

subsection \<open>Push\<close>

text \<open>
  The request \<open>_pushToSheets\<close> builds for a queue item; an unknown action
  builds none.
\<close>

definition push_rowIndex :: "entry \<Rightarrow> jsval" where
  "push_rowIndex item =
     js_or (js_or (js_or (e_rowIndex item) (getf (e_data item) ''_rowIndex''))
                  (getf (e_data item) ''_sheetRowIndex'')) JNull"

definition push_request :: "entry \<Rightarrow> request option" where
  "push_request item =
     (if e_action item = ''append''
        then Some (ReqAppend (e_sheet item) [objectToRowArray (e_sheet item) (e_data item)])
      else if e_action item = ''update''
        then (if e_sheet item = ''profile''
              then Some (ReqWrite (e_sheet item) [objectToRowArray (e_sheet item) (e_data item)])
              else Some (ReqUpdate (e_sheet item) (push_rowIndex item)
                           (objectToRowArray (e_sheet item) (e_data item))))
      else if e_action item = ''delete''
        then Some (ReqDelete (e_sheet item) (push_rowIndex item))
      else None)"

text \<open>
  \<open>_pushToSheets\<close>: the POST goes out (and is recorded with the id of the queue
  item it carries); the unknown action returns \<open>false\<close> without a call.
\<close>

definition pushToSheets :: "'w runtime \<Rightarrow> entry \<Rightarrow> 'w state \<Rightarrow> post_result \<times> 'w state" where
  "pushToSheets rt item st =
     (case push_request item of
        None \<Rightarrow> (Returned False, st)
      | Some req \<Rightarrow>
          (let (res, w) = rt_post rt req (world st)
           in (res, st\<lparr>sent := sent st @ [Posted (e_id item) req res], world := w\<rparr>)))"

text \<open>What \<open>syncNow\<close> does to the stores after an accepted push.\<close>

definition after_success :: "entry \<Rightarrow> 'w state \<Rightarrow> 'w state" where
  "after_success item st =
     (let st2 = removeFromQueue (e_id item) (markSynced (e_sheet item) (e_data item) st)
      in if e_action item = ''delete'' then purgeDeleted (e_sheet item) (e_data item) st2 else st2)"

text \<open>
  The \<open>for\<close> loop of \<open>syncNow\<close> over the sorted snapshot of the queue, with
  the counters \<open>pushed\<close> and \<open>errors\<close>; the \<open>break\<close> of the \<open>catch\<close> branch
  ends the loop.
\<close>

fun push_loop :: "'w runtime \<Rightarrow> entry list \<Rightarrow> nat \<Rightarrow> nat \<Rightarrow> 'w state \<Rightarrow> nat \<times> nat \<times> 'w state" where
  "push_loop rt [] pushed errors st = (pushed, errors, st)"
| "push_loop rt (item # items) pushed errors st =
     (if e_retries item \<ge> MAX_RETRIES
      then push_loop rt items pushed (errors + 1) (removeFromQueue (e_id item) st)
      else (case pushToSheets rt item st of
              (Threw, st1) \<Rightarrow>
                 (pushed, errors + 1, incrementRetries (e_id item) (e_retries item) st1)
            | (Returned success, st1) \<Rightarrow>
                 (if success
                  then push_loop rt items (pushed + 1) errors (after_success item st1)
                  else push_loop rt items pushed (errors + 1)
                         (incrementRetries (e_id item) (e_retries item) st1))))"

subsection \<open>Pull and merge\<close>

definition naturalKeys :: "string \<Rightarrow> string list option" where
  "naturalKeys sheet =
    (if sheet = ''health'' then Some [''date'']
     else if sheet = ''medications'' then Some [''date'', ''name'', ''time'']
     else if sheet = ''appointments'' then Some [''date'', ''time'', ''doctor'']
     else if sheet = ''fitness'' then Some [''date'', ''type'', ''exercise'']
     else if sheet = ''nutrition'' then Some [''date'', ''meal'', ''food'']
     else if sheet = ''water'' then Some [''date'', ''time'']
     else if sheet = ''sleep'' then Some [''date'']
     else if sheet = ''mood'' then Some [''date'', ''time'']
     else if sheet = ''meditation'' then Some [''date'', ''type'']
     else if sheet = ''habits'' then Some [''date'', ''habit_id'']
     else None)"

definition key_string :: "obj \<Rightarrow> string \<Rightarrow> string" where
  "key_string ob k = (if getf ob k \<noteq> JUndef \<and> getf ob k \<noteq> JNull then js_String (getf ob k) else [])"

definition natural_match :: "string list \<Rightarrow> obj \<Rightarrow> obj \<Rightarrow> bool" where
  "natural_match ks cand ob = list_all (\<lambda>k. key_string cand k = key_string ob k) ks"

definition findMatchingRecord :: "string \<Rightarrow> obj \<Rightarrow> 'w state \<Rightarrow> idb_error + obj option" where
  "findMatchingRecord sheet ob st =
     (if sheet = ''profile'' then store_get ''key'' (getf ob ''key'') (tables st sheet)
      else if sheet = ''habit_defs'' \<or> sheet = ''goals''
        then (if truthy (getf ob ''id'') then store_get ''id'' (getf ob ''id'') (tables st sheet)
              else Inr None)
      else if truthy (getf ob ''date'') \<and> sheet \<in> set DATE_INDEXED_STORES
        then (case index_getAll (getf ob ''date'') (getf ob ''date'') (tables st sheet) of
                Inl e \<Rightarrow> Inl e
              | Inr candidates \<Rightarrow>
                  (let ks = (case naturalKeys sheet of Some l \<Rightarrow> l | None \<Rightarrow> [''date''])
                   in Inr (find (\<lambda>cand. natural_match ks cand ob) candidates)))
      else Inr None)"

text \<open>The sync metadata a pulled row gets at position \<open>i\<close> of the response, at time \<open>now\<close>.\<close>

definition stamp_row :: "nat \<Rightarrow> int \<Rightarrow> obj \<Rightarrow> obj" where
  "stamp_row i now ob =
     ob(''_sheetRowIndex'' \<mapsto> JNum (int i), ''_synced'' \<mapsto> JBool True,
        ''_modified'' \<mapsto> JNum now, ''_deleted'' \<mapsto> JBool False)"

text \<open>\<open>match._synced === false && match._modified > obj._modified\<close>\<close>

definition local_wins :: "obj \<Rightarrow> obj \<Rightarrow> bool" where
  "local_wins match ob =
     (getf match ''_synced'' = JBool False \<and> js_gt (getf match ''_modified'') (getf ob ''_modified''))"

text \<open>\<open>Object.assign({}, match, obj, {id: match.id, _rowIndex: obj._sheetRowIndex})\<close>\<close>

definition remote_merge :: "obj \<Rightarrow> obj \<Rightarrow> obj" where
  "remote_merge match ob =
     (match ++ ob)(''id'' \<mapsto> getf match ''id'', ''_rowIndex'' \<mapsto> getf ob ''_sheetRowIndex'')"

text \<open>
  One iteration of the merge loop of \<open>_pullFromSheets\<close>, for the row at position
  \<open>i\<close>: the result says whether \<open>merged\<close> is incremented, or carries the
  storage error that ends the pull.
\<close>

definition merge_row :: "'w runtime \<Rightarrow> string \<Rightarrow> nat \<Rightarrow> jsval list \<Rightarrow> 'w state \<Rightarrow> (idb_error + bool) \<times> 'w state" where
  "merge_row rt sheet i rowArr st =
     (case rowArrayToObject sheet rowArr of
        None \<Rightarrow> (Inr False, st)
      | Some decoded \<Rightarrow>
         (let (now, w) = rt_now rt (world st);
              st1 = st\<lparr>world := w\<rparr>;
              ob = stamp_row i now decoded
          in case findMatchingRecord sheet ob st1 of
               Inl e \<Rightarrow> (Inl e, st1)
             | Inr None \<Rightarrow>
                 (case store_write (sheet = ''profile'' \<or> sheet = ''habit_defs'' \<or> sheet = ''goals'')
                         (keyPath sheet) (autoIncrement sheet) ob (tables st1 sheet) of
                    Inl e \<Rightarrow> (Inl e, st1)
                  | Inr (k, t') \<Rightarrow> (Inr True, st1\<lparr>tables := (tables st1)(sheet := t')\<rparr>))
             | Inr (Some match) \<Rightarrow>
                 (if local_wins match ob then (Inr False, st1)
                  else (case store_write True (keyPath sheet) (autoIncrement sheet)
                               (remote_merge match ob) (tables st1 sheet) of
                          Inl e \<Rightarrow> (Inl e, st1)
                        | Inr (k, t') \<Rightarrow> (Inr True, st1\<lparr>tables := (tables st1)(sheet := t')\<rparr>)))))"

fun merge_rows :: "'w runtime \<Rightarrow> string \<Rightarrow> jsval list list \<Rightarrow> nat \<Rightarrow> nat \<Rightarrow> 'w state \<Rightarrow> (idb_error + nat) \<times> 'w state" where
  "merge_rows rt sheet [] i merged st = (Inr merged, st)"
| "merge_rows rt sheet (rowArr # rest) i merged st =
     (case merge_row rt sheet i rowArr st of
        (Inl e, st1) \<Rightarrow> (Inl e, st1)
      | (Inr counted, st1) \<Rightarrow>
          merge_rows rt sheet rest (i + 1) (if counted then merged + 1 else merged) st1)"

definition pullFromSheets :: "'w runtime \<Rightarrow> string \<Rightarrow> jsval \<Rightarrow> jsval \<Rightarrow> 'w state \<Rightarrow> (idb_error + nat) \<times> 'w state" where
  "pullFromSheets rt sheet from to st =
     (if \<not> has_url st then (Inr 0, st)
      else
        (let req = ReqRead sheet (if truthy from then Some from else None)
                                 (if truthy to then Some to else None);
             (res, w) = rt_read rt req (world st);
             st1 = st\<lparr>sent := sent st @ [Fetched req], world := w\<rparr>
         in case res of
              ReadThrew \<Rightarrow> (Inl NetworkError, st1)
            | ReadJson success dat \<Rightarrow>
                (if \<not> success then (Inr 0, st1)
                 else (case dat of None \<Rightarrow> (Inr 0, st1)
                       | Some data_rows \<Rightarrow> merge_rows rt sheet data_rows 0 0 st1))))"

subsection \<open>A sync cycle\<close>

record sync_result =
  pushed :: nat
  pulled :: nat
  errors :: nat

text \<open>The pull loop of \<open>syncNow\<close>: a pull that throws is swallowed.\<close>

fun pull_stores :: "'w runtime \<Rightarrow> string \<Rightarrow> string list \<Rightarrow> nat \<Rightarrow> 'w state \<Rightarrow> nat \<times> 'w state" where
  "pull_stores rt today [] n st = (n, st)"
| "pull_stores rt today (sheet # rest) n st =
     (case pullFromSheets rt sheet (JStr today) (JStr today) st of
        (Inl e, st1) \<Rightarrow> pull_stores rt today rest n st1
      | (Inr count, st1) \<Rightarrow> pull_stores rt today rest (n + count) st1)"

definition syncNow :: "'w runtime \<Rightarrow> 'w state \<Rightarrow> sync_result \<times> 'w state" where
  "syncNow rt st =
     (let (on, w) = rt_online rt (world st);
          st0 = st\<lparr>world := w\<rparr>
      in if \<not> on \<or> \<not> has_url st0 then (\<lparr>pushed = 0, pulled = 0, errors = 0\<rparr>, st0)
         else
           (let queueItems = sort_key e_id (queue st0);
                (p, e, st1) = push_loop rt queueItems 0 0 st0;
                (today, w2) = rt_today rt (world st1);
                (pl, st2) = pull_stores rt today DATE_INDEXED_STORES 0 (st1\<lparr>world := w2\<rparr>)
            in (\<lparr>pushed = p, pulled = pl, errors = e\<rparr>, st2)))"

subsection \<open>Reading the trace of gateway calls\<close>

text \<open>Whether a call is a POST, and the queue entry a POST carries.\<close>

definition is_posted :: "gwcall \<Rightarrow> bool" where
  "is_posted c = (case c of Posted q r res \<Rightarrow> True | Fetched r \<Rightarrow> False)"

definition call_for :: "gwcall \<Rightarrow> nat" where
  "call_for c = (case c of Posted q r res \<Rightarrow> q | Fetched r \<Rightarrow> 0)"

text \<open>
  A sync cycle from \<open>s\<close> to \<open>s'\<close> in which the push of queue entry \<open>q\<close>
  failed: its POST was rejected or threw.
\<close>

definition push_failed :: "'w runtime \<Rightarrow> 'w state \<Rightarrow> 'w state \<Rightarrow> nat \<Rightarrow> bool" where
  "push_failed rt s s' q =
     (\<exists>res calls req outcome. syncNow rt s = (res, s') \<and> sent s' = sent s @ calls
         \<and> Posted q req outcome \<in> set calls \<and> outcome \<noteq> Returned True)"

section \<open>Example runtime and states\<close>

text \<open>
  A runtime whose clock stands at 1000 on 2026-02-12, always online; the POSTs
  answer from a script (the world), a POST beyond the script throws; every read
  answers \<open>rd\<close>.  The example states hold queued \<open>water\<close> appends over
  empty stores.
\<close>

definition ex_rt :: "read_result \<Rightarrow> (post_result list) runtime" where
  "ex_rt rd = \<lparr>rt_now = (\<lambda>w. (1000, w)), rt_today = (\<lambda>w. (''2026-02-12'', w)),
     rt_online = (\<lambda>w. (True, w)),
     rt_post = (\<lambda>r w. case w of [] \<Rightarrow> (Threw, []) | x # xs \<Rightarrow> (x, xs)),
     rt_read = (\<lambda>r w. (rd, w))\<rparr>"

definition ex_water :: "nat \<Rightarrow> nat \<Rightarrow> entry" where
  "ex_water n k = \<lparr>e_id = n, e_sheet = ''water'', e_action = ''append'',
     e_data = [''date'' \<mapsto> JStr ''2026-02-12'', ''time'' \<mapsto> JStr ''08:30'',
               ''amount_ml'' \<mapsto> JNum 250, ''id'' \<mapsto> JNum (int n)],
     e_rowIndex = JNull, e_timestamp = 900, e_retries = k\<rparr>"

definition ex_water_req :: request where
  "ex_water_req = ReqAppend ''water'' [[JStr ''2026-02-12'', JStr ''08:30'', JNum 250]]"

definition ex_reads :: "gwcall list" where
  "ex_reads = map (\<lambda>s. Fetched (ReqRead s (Some (JStr ''2026-02-12'')) (Some (JStr ''2026-02-12''))))
                  DATE_INDEXED_STORES"

definition ex_state :: "entry list \<Rightarrow> gwcall list \<Rightarrow> post_result list \<Rightarrow> (post_result list) state" where
  "ex_state q snt w = \<lparr>tables = (\<lambda>s. \<lparr>t_rows = [], t_keygen = 1\<rparr>), queue = q, queue_gen = 3,
     scriptUrl = Some ''https://example.invalid/exec'', sent = snt, world = w\<rparr>"

text \<open>
  A local \<open>water\<close> record with key 1, a pulled row with the same date and
  time and another amount, the row decoded, and states whose \<open>water\<close> table
  holds the given records.
\<close>

definition ex_rec :: "bool \<Rightarrow> int \<Rightarrow> bool \<Rightarrow> obj" where
  "ex_rec synced modified deleted =
     [''id'' \<mapsto> JNum 1, ''date'' \<mapsto> JStr ''2026-02-12'', ''time'' \<mapsto> JStr ''08:30'',
      ''amount_ml'' \<mapsto> JNum 250, ''_synced'' \<mapsto> JBool synced, ''_modified'' \<mapsto> JNum modified,
      ''_deleted'' \<mapsto> JBool deleted]"

definition ex_row :: "jsval list" where
  "ex_row = [JStr ''2026-02-12'', JStr ''08:30'', JNum 300]"

definition ex_decoded :: obj where
  "ex_decoded = [''date'' \<mapsto> JStr ''2026-02-12'', ''time'' \<mapsto> JStr ''08:30'', ''amount_ml'' \<mapsto> JNum 300]"

definition ex_local :: "obj list \<Rightarrow> entry list \<Rightarrow> (post_result list) state" where
  "ex_local rs q = \<lparr>tables = (\<lambda>s. if s = ''water'' then \<lparr>t_rows = rs, t_keygen = 2\<rparr>
                                   else \<lparr>t_rows = [], t_keygen = 1\<rparr>),
     queue = q, queue_gen = Suc (length q), scriptUrl = Some ''https://example.invalid/exec'', sent = [], world = []\<rparr>"

definition ex_pending :: entry where
  "ex_pending = \<lparr>e_id = 1, e_sheet = ''water'', e_action = ''delete'', e_data = ex_rec False 1000 True,
     e_rowIndex = JNull, e_timestamp = 1000, e_retries = 0\<rparr>"

definition ex_by_date :: options where
  "ex_by_date = \<lparr>opt_from = JUndef, opt_to = JUndef, opt_date = JStr ''2026-02-12'', opt_limit = JUndef\<rparr>"

text \<open>
  A day on which the clock advances with every reading, the gateway refuses a
  \<open>delete\<close> that names no row (as the backend does, answering
  \<open>{success:false}\<close>) and accepts everything else, and the read of
  \<open>water\<close> returns the one row \<open>ex_row\<close>, every other read no row.  The
  states of that day hold the given \<open>water\<close> records, queue, generator,
  trace and clock; \<open>ex_tomb\<close> is the \<open>delete\<close> entry queued for record 1,
  \<open>ex_back\<close> the record the merge of \<open>ex_row\<close> stores over it.
\<close>

definition ex_gateway :: "nat runtime" where
  "ex_gateway = \<lparr>rt_now = (\<lambda>w. (1000 + int w, Suc w)), rt_today = (\<lambda>w. (''2026-02-12'', w)),
     rt_online = (\<lambda>w. (True, w)),
     rt_post = (\<lambda>r w. (case r of ReqDelete s ri \<Rightarrow> Returned (truthy ri) | _ \<Rightarrow> Returned True, w)),
     rt_read = (\<lambda>r w. (case r of ReqRead s lo hi \<Rightarrow> ReadJson True (Some (if s = ''water'' then [ex_row] else []))
                              | _ \<Rightarrow> ReadThrew, w))\<rparr>"

definition ex_tomb :: "nat \<Rightarrow> entry" where
  "ex_tomb k = \<lparr>e_id = 1, e_sheet = ''water'', e_action = ''delete'', e_data = ex_rec False 1000 True,
     e_rowIndex = JNull, e_timestamp = 1001, e_retries = k\<rparr>"

definition ex_back :: obj where
  "ex_back = [''id'' \<mapsto> JNum 1, ''date'' \<mapsto> JStr ''2026-02-12'', ''time'' \<mapsto> JStr ''08:30'',
      ''amount_ml'' \<mapsto> JNum 300, ''_synced'' \<mapsto> JBool True, ''_modified'' \<mapsto> JNum 1002,
      ''_deleted'' \<mapsto> JBool False, ''_sheetRowIndex'' \<mapsto> JNum 0, ''_rowIndex'' \<mapsto> JNum 0]"

definition ex_day :: "obj list \<Rightarrow> entry list \<Rightarrow> nat \<Rightarrow> gwcall list \<Rightarrow> nat \<Rightarrow> nat state" where
  "ex_day rs q g snt w = \<lparr>tables = (\<lambda>s. if s = ''water'' then \<lparr>t_rows = rs, t_keygen = 2\<rparr>
                                   else \<lparr>t_rows = [], t_keygen = 1\<rparr>),
     queue = q, queue_gen = g, scriptUrl = Some ''https://example.invalid/exec'', sent = snt, world = w\<rparr>"

section \<open>Row encoding: decoding an encoded record\<close>

lemma rowArrayToObject_fold_prefix:
  assumes "n \<le> length cols"
  shows "fold (\<lambda>i ob. ob(cols ! i \<mapsto> (if i < length (map f cols) then map f cols ! i else JNull)))
              [0..<n] Map.empty
         = (\<lambda>c. if c \<in> set (take n cols) then Some (f c) else None)"
  using assms
proof (induction n)
  case 0
  show ?case by simp
next
  case (Suc n)
  then have n: "n < length cols" by simp
  have "set (take (Suc n) cols) = insert (cols ! n) (set (take n cols))"
    using n by (simp add: take_Suc_conv_app_nth)
  with Suc n show ?case
    by (auto simp: fun_eq_iff)
qed

lemma rowArrayToObject_cols_encode:
  "rowArrayToObject_cols cols (map f cols) = (\<lambda>c. if c \<in> set cols then Some (f c) else None)"
  unfolding rowArrayToObject_cols_def
  using rowArrayToObject_fold_prefix [of "length cols" cols f] by simp

text \<open>
  C10.  For a sheet of the column table and a record that has a defined,
  non-null value at every column of that sheet, decoding the encoded row
  yields an object that agrees with the record on every column of the sheet.
\<close>

theorem row_encoding_roundtrip:
  assumes "COLUMNS sheet = Some cols"
    and "\<forall>c \<in> set cols. getf r c \<noteq> JUndef \<and> getf r c \<noteq> JNull"
  shows "\<exists>ob. rowArrayToObject sheet (objectToRowArray sheet r) = Some ob
            \<and> (\<forall>c \<in> set cols. getf ob c = getf r c)"
  using assms
  by (simp add: rowArrayToObject_def objectToRowArray_def rowArrayToObject_cols_encode
        getf_def cell_of_def)

theorem row_encoding_roundtrip_witness:
  "COLUMNS ''water'' = Some [''date'', ''time'', ''amount_ml'']
   \<and> (\<exists>ob. rowArrayToObject ''water''
        (objectToRowArray ''water''
           [''date'' \<mapsto> JStr ''2026-02-12'', ''time'' \<mapsto> JStr ''08:30'', ''amount_ml'' \<mapsto> JNum 250]) = Some ob
      \<and> getf ob ''date'' = JStr ''2026-02-12'' \<and> getf ob ''time'' = JStr ''08:30''
      \<and> getf ob ''amount_ml'' = JNum 250)"
proof -
  have c: "COLUMNS ''water'' = Some [''date'', ''time'', ''amount_ml'']"
    by (simp add: COLUMNS_def)
  have d: "\<forall>c \<in> set [''date'', ''time'', ''amount_ml''].
      getf [''date'' \<mapsto> JStr ''2026-02-12'', ''time'' \<mapsto> JStr ''08:30'', ''amount_ml'' \<mapsto> JNum 250] c \<noteq> JUndef
    \<and> getf [''date'' \<mapsto> JStr ''2026-02-12'', ''time'' \<mapsto> JStr ''08:30'', ''amount_ml'' \<mapsto> JNum 250] c \<noteq> JNull"
    by (simp add: getf_def)
  from row_encoding_roundtrip [OF c d] c show ?thesis
    by (simp add: getf_def)
qed

section \<open>Frame properties of the queue helpers\<close>

lemma removeFromQueue_frame [simp]:
  "queue (removeFromQueue q st) = filter (\<lambda>e. e_id e \<noteq> q) (queue st)"
  "sent (removeFromQueue q st) = sent st"
  "tables (removeFromQueue q st) = tables st"
  "world (removeFromQueue q st) = world st"
  by (simp_all add: removeFromQueue_def)

lemma incrementRetries_frame [simp]:
  "queue (incrementRetries q n st) =
     map (\<lambda>e. if e_id e = q then e\<lparr>e_retries := n + 1\<rparr> else e) (queue st)"
  "sent (incrementRetries q n st) = sent st"
  "tables (incrementRetries q n st) = tables st"
  "world (incrementRetries q n st) = world st"
  by (simp_all add: incrementRetries_def)

lemma markSynced_frame [simp]:
  "queue (markSynced sheet dat st) = queue st"
  "sent (markSynced sheet dat st) = sent st"
  "world (markSynced sheet dat st) = world st"
  by (simp_all add: markSynced_def Let_def split: sum.splits option.splits prod.splits)

lemma purgeDeleted_frame [simp]:
  "queue (purgeDeleted sheet dat st) = queue st"
  "sent (purgeDeleted sheet dat st) = sent st"
  "world (purgeDeleted sheet dat st) = world st"
  by (simp_all add: purgeDeleted_def Let_def split: sum.splits option.splits prod.splits)

lemma after_success_frame [simp]:
  "queue (after_success item st) = filter (\<lambda>e. e_id e \<noteq> e_id item) (queue st)"
  "sent (after_success item st) = sent st"
  "world (after_success item st) = world st"
  by (simp_all add: after_success_def Let_def)

lemma pushToSheets_cases:
  assumes "pushToSheets rt item st = (res, st1)"
  obtains (nocall) "push_request item = None" "res = Returned False" "st1 = st"
    | (call) req w where "push_request item = Some req" "rt_post rt req (world st) = (res, w)"
        "st1 = st\<lparr>sent := sent st @ [Posted (e_id item) req res], world := w\<rparr>"
  using assms by (auto simp: pushToSheets_def split: option.splits prod.splits)

lemma pushToSheets_frame:
  assumes "pushToSheets rt item st = (res, st1)"
  shows "queue st1 = queue st" and "tables st1 = tables st"
  using assms by (auto elim!: pushToSheets_cases)


lemma call_simps [simp]:
  "is_posted (Posted q r res)" "\<not> is_posted (Fetched r)" "call_for (Posted q r res) = q"
  by (simp_all add: is_posted_def call_for_def)

text \<open>The calls of a push loop: POSTs only, for items of the snapshot, in the snapshot's order.\<close>

lemma push_loop_sent:
  assumes "push_loop rt items p e st = (p', e', st')"
  shows "\<exists>calls. sent st' = sent st @ calls
           \<and> (\<forall>c \<in> set calls. is_posted c \<and> call_for c \<in> e_id ` set items)
           \<and> (sorted (map e_id items) \<longrightarrow> sorted (map call_for calls))"
  using assms
proof (induction items arbitrary: p e st)
  case Nil
  then show ?case by simp
next
  case (Cons item items)
  show ?case
  proof (cases "e_retries item \<ge> MAX_RETRIES")
    case True
    with Cons.prems have "push_loop rt items p (e + 1) (removeFromQueue (e_id item) st) = (p', e', st')"
      by simp
    from Cons.IH [OF this] show ?thesis by auto
  next
    case False
    obtain res st1 where ps: "pushToSheets rt item st = (res, st1)"
      by (cases "pushToSheets rt item st")
    then obtain c1 where c1: "sent st1 = sent st @ c1"
      "c1 = [] \<or> (\<exists>req. c1 = [Posted (e_id item) req res])"
      by (auto elim!: pushToSheets_cases)
    show ?thesis
    proof (cases res)
      case Threw
      with Cons.prems False ps have "st' = incrementRetries (e_id item) (e_retries item) st1"
        by simp
      with c1 show ?thesis
        by (auto simp: sorted_iff_nth_mono)
    next
      case (Returned ok)
      define st2 where "st2 = (if ok then after_success item st1
                               else incrementRetries (e_id item) (e_retries item) st1)"
      have s2: "sent st2 = sent st1" by (simp add: st2_def)
      from Cons.prems False ps Returned
      have "\<exists>p2 e2. push_loop rt items p2 e2 st2 = (p', e', st')"
        by (auto simp: st2_def split: if_splits)
      then obtain p2 e2 where "push_loop rt items p2 e2 st2 = (p', e', st')" by blast
      from Cons.IH [OF this] obtain c2 where c2: "sent st' = sent st2 @ c2"
        "\<forall>c \<in> set c2. is_posted c \<and> call_for c \<in> e_id ` set items"
        "sorted (map e_id items) \<longrightarrow> sorted (map call_for c2)"
        by blast
      have "sent st' = sent st @ (c1 @ c2)" using c1 c2 s2 by simp
      moreover have "\<forall>c \<in> set (c1 @ c2). is_posted c \<and> call_for c \<in> e_id ` set (item # items)"
        using c1 c2 by auto
      moreover have "sorted (map e_id (item # items)) \<longrightarrow> sorted (map call_for (c1 @ c2))"
        using c1 c2 by (auto simp: sorted_append)
      ultimately show ?thesis by blast
    qed
  qed
qed


section \<open>Frame properties of the pull\<close>

lemma merge_row_frame:
  assumes "merge_row rt sheet i rowArr st = (res, st1)"
  shows "queue st1 = queue st \<and> sent st1 = sent st"
  using assms
  by (auto simp: merge_row_def Let_def split: option.splits prod.splits sum.splits if_splits)

lemma merge_rows_frame:
  assumes "merge_rows rt sheet data_rows i merged st = (res, st1)"
  shows "queue st1 = queue st \<and> sent st1 = sent st"
  using assms
proof (induction data_rows arbitrary: i merged st)
  case Nil
  then show ?case by simp
next
  case (Cons rowArr rest)
  obtain r st2 where m: "merge_row rt sheet i rowArr st = (r, st2)"
    by (cases "merge_row rt sheet i rowArr st")
  note f = merge_row_frame [OF m]
  show ?case
  proof (cases r)
    case (Inl err)
    with Cons.prems m f show ?thesis by simp
  next
    case (Inr counted)
    with Cons.prems m
    have "merge_rows rt sheet rest (i + 1) (if counted then merged + 1 else merged) st2 = (res, st1)"
      by simp
    from Cons.IH [OF this] f show ?thesis by simp
  qed
qed

lemma pullFromSheets_frame:
  assumes "pullFromSheets rt sheet from to st = (res, st1)"
  shows "queue st1 = queue st \<and> (\<exists>fs. sent st1 = sent st @ fs \<and> (\<forall>c \<in> set fs. \<not> is_posted c))"
proof (cases "has_url st")
  case False
  with assms show ?thesis by (simp add: pullFromSheets_def)
next
  case True
  define req where "req = ReqRead sheet (if truthy from then Some from else None)
                                 (if truthy to then Some to else None)"
  obtain rr w where rd: "rt_read rt req (world st) = (rr, w)"
    by (cases "rt_read rt req (world st)")
  define st0 where "st0 = st\<lparr>sent := sent st @ [Fetched req], world := w\<rparr>"
  have base: "queue st0 = queue st" "sent st0 = sent st @ [Fetched req]"
    by (simp_all add: st0_def)
  have "(st1 = st0) \<or> (\<exists>data_rows r. merge_rows rt sheet data_rows 0 0 st0 = (r, st1))"
    using assms True rd
    by (auto simp: pullFromSheets_def Let_def req_def st0_def
             split: read_result.splits option.splits if_splits)
  then have "queue st1 = queue st0 \<and> sent st1 = sent st0"
    using merge_rows_frame by blast
  with base show ?thesis by auto
qed

lemma pull_stores_frame:
  assumes "pull_stores rt today sheets n st = (n', st1)"
  shows "queue st1 = queue st \<and> (\<exists>fs. sent st1 = sent st @ fs \<and> (\<forall>c \<in> set fs. \<not> is_posted c))"
  using assms
proof (induction sheets arbitrary: n st)
  case Nil
  then show ?case by simp
next
  case (Cons sheet rest)
  obtain r st2 where pl: "pullFromSheets rt sheet (JStr today) (JStr today) st = (r, st2)"
    by (cases "pullFromSheets rt sheet (JStr today) (JStr today) st")
  from pullFromSheets_frame [OF pl] obtain f1 where
    f1: "queue st2 = queue st" "sent st2 = sent st @ f1" "\<forall>c \<in> set f1. \<not> is_posted c"
    by blast
  from Cons.prems pl have "\<exists>n2. pull_stores rt today rest n2 st2 = (n', st1)"
    by (auto split: sum.splits)
  then obtain n2 where "pull_stores rt today rest n2 st2 = (n', st1)" by blast
  from Cons.IH [OF this] obtain f2 where
    f2: "queue st1 = queue st2" "sent st1 = sent st2 @ f2" "\<forall>c \<in> set f2. \<not> is_posted c"
    by blast
  have "sent st1 = sent st @ (f1 @ f2)" using f1 f2 by simp
  moreover have "\<forall>c \<in> set (f1 @ f2). \<not> is_posted c" using f1 f2 by auto
  ultimately show ?case using f1 f2 by metis
qed

section \<open>The calls of a sync cycle\<close>

text \<open>A sync cycle is the push loop over the sorted queue followed by the pulls.\<close>

lemma syncNow_phases:
  assumes "syncNow rt st = (res, st')"
  shows "(\<not> (fst (rt_online rt (world st)) \<and> has_url st)
          \<and> st' = st\<lparr>world := snd (rt_online rt (world st))\<rparr> \<and> res = \<lparr>pushed = 0, pulled = 0, errors = 0\<rparr>)
       \<or> (\<exists>p e st1 fs. push_loop rt (sort_key e_id (queue st)) 0 0 (st\<lparr>world := snd (rt_online rt (world st))\<rparr>) = (p, e, st1)
            \<and> pushed res = p \<and> errors res = e
            \<and> queue st' = queue st1 \<and> sent st' = sent st1 @ fs \<and> (\<forall>c \<in> set fs. \<not> is_posted c))"
proof -
  obtain on w where on: "rt_online rt (world st) = (on, w)" by (cases "rt_online rt (world st)")
  define st0 where "st0 = st\<lparr>world := w\<rparr>"
  show ?thesis
  proof (cases "\<not> on \<or> \<not> has_url st0")
    case True
    with assms on show ?thesis by (auto simp: syncNow_def st0_def has_url_def)
  next
    case False
    obtain p e st1 where pl: "push_loop rt (sort_key e_id (queue st)) 0 0 st0 = (p, e, st1)"
      by (cases "push_loop rt (sort_key e_id (queue st)) 0 0 st0") auto
    obtain today w2 where td: "rt_today rt (world st1) = (today, w2)"
      by (cases "rt_today rt (world st1)")
    obtain pl2 st2 where ps: "pull_stores rt today DATE_INDEXED_STORES 0 (st1\<lparr>world := w2\<rparr>) = (pl2, st2)"
      by (cases "pull_stores rt today DATE_INDEXED_STORES 0 (st1\<lparr>world := w2\<rparr>)")
    have q0: "queue st0 = queue st" by (simp add: st0_def)
    from assms on False pl td ps q0 have r: "st' = st2" "res = \<lparr>pushed = p, pulled = pl2, errors = e\<rparr>"
      by (auto simp: syncNow_def Let_def st0_def)
    from pull_stores_frame [OF ps] obtain fs where
      "queue st2 = queue st1" "sent st2 = sent st1 @ fs" "\<forall>c \<in> set fs. \<not> is_posted c"
      by auto
    with r pl on show ?thesis by (auto simp: st0_def)
  qed
qed


lemma syncNow_calls:
  assumes "syncNow rt st = (res, st')"
  shows "\<exists>pc fs. sent st' = sent st @ pc @ fs
           \<and> (\<forall>c \<in> set pc. is_posted c \<and> call_for c \<in> e_id ` set (queue st))
           \<and> sorted (map call_for pc)
           \<and> (\<forall>c \<in> set fs. \<not> is_posted c)"
  using syncNow_phases [OF assms]
proof
  assume "\<not> (fst (rt_online rt (world st)) \<and> has_url st)
          \<and> st' = st\<lparr>world := snd (rt_online rt (world st))\<rparr> \<and> res = \<lparr>pushed = 0, pulled = 0, errors = 0\<rparr>"
  then have "sent st' = sent st @ [] @ []" by simp
  then show ?thesis by fastforce
next
  assume "\<exists>p e st1 fs. push_loop rt (sort_key e_id (queue st)) 0 0 (st\<lparr>world := snd (rt_online rt (world st))\<rparr>) = (p, e, st1)
            \<and> pushed res = p \<and> errors res = e
            \<and> queue st' = queue st1 \<and> sent st' = sent st1 @ fs \<and> (\<forall>c \<in> set fs. \<not> is_posted c)"
  then obtain p e st1 fs where
    pl: "push_loop rt (sort_key e_id (queue st)) 0 0 (st\<lparr>world := snd (rt_online rt (world st))\<rparr>) = (p, e, st1)"
    and fs: "sent st' = sent st1 @ fs" "\<forall>c \<in> set fs. \<not> is_posted c"
    by blast
  from push_loop_sent [OF pl] obtain pc where
    pc: "sent st1 = sent st @ pc"
        "\<forall>c \<in> set pc. is_posted c \<and> call_for c \<in> e_id ` set (sort_key e_id (queue st))"
        "sorted (map call_for pc)"
    by auto
  from pc fs have "sent st' = sent st @ pc @ fs" by simp
  with pc fs show ?thesis by auto
qed

text \<open>
  C2.  In every sync cycle the queue entries are pushed in ascending order of
  their id: among the gateway calls a cycle adds to the trace, whenever a POST
  for entry \<open>a\<close> and a POST for entry \<open>b\<close> both occur and \<open>a < b\<close>, the
  POST for \<open>a\<close> is issued first; and every POST carries an entry that was queued
  when the cycle began.
\<close>

theorem fifo_push_order:
  assumes "syncNow rt st = (res, st')"
  shows "\<exists>calls. sent st' = sent st @ calls
          \<and> (\<forall>i j a b ra rb oa ob.
                i < length calls \<and> j < length calls
                \<and> calls ! i = Posted a ra oa \<and> calls ! j = Posted b rb ob \<and> a < b
                \<longrightarrow> i < j)
          \<and> (\<forall>a ra oa. Posted a ra oa \<in> set calls \<longrightarrow> a \<in> e_id ` set (queue st))"
proof -
  from syncNow_calls [OF assms] obtain pc fs where
    s: "sent st' = sent st @ pc @ fs"
    and ids: "\<forall>c \<in> set pc. is_posted c \<and> call_for c \<in> e_id ` set (queue st)"
    and srt: "sorted (map call_for pc)"
    and fs: "\<forall>c \<in> set fs. \<not> is_posted c"
    by blast
  have own: "a \<in> e_id ` set (queue st)" if "Posted a ra oa \<in> set (pc @ fs)" for a ra oa
  proof -
    from that fs have "Posted a ra oa \<in> set pc" by force
    with ids have "call_for (Posted a ra oa) \<in> e_id ` set (queue st)" by blast
    then show ?thesis by simp
  qed
  have "i < j" if h: "i < length (pc @ fs)" "j < length (pc @ fs)"
      "(pc @ fs) ! i = Posted a ra oa" "(pc @ fs) ! j = Posted b rb ob" "a < b"
    for i j a b ra rb oa ob
  proof (rule ccontr)
    assume "\<not> i < j"
    then have ji: "j \<le> i" by simp
    have inpc: "k < length pc" if "k < length (pc @ fs)" "is_posted ((pc @ fs) ! k)" for k
    proof (rule ccontr)
      assume "\<not> k < length pc"
      then have "(pc @ fs) ! k = fs ! (k - length pc)" "k - length pc < length fs"
        using that by (auto simp: nth_append)
      then have "(pc @ fs) ! k \<in> set fs" by simp
      with fs that show False by blast
    qed
    from h inpc [of i] inpc [of j] have ij: "i < length pc" "j < length pc" by simp_all
    with h have "pc ! i = Posted a ra oa" "pc ! j = Posted b rb ob" by (simp_all add: nth_append)
    moreover from srt ji ij have "map call_for pc ! j \<le> map call_for pc ! i"
      by (simp add: sorted_iff_nth_mono del: nth_map)
    ultimately show False using ij h by simp
  qed
  with s own show ?thesis by blast
qed


section \<open>A push that throws\<close>

lemma pushToSheets_sent:
  assumes "pushToSheets rt item st = (res, st1)"
  shows "(push_request item = None \<and> res = Returned False \<and> sent st1 = sent st)
       \<or> (\<exists>req. push_request item = Some req \<and> sent st1 = sent st @ [Posted (e_id item) req res])"
  using assms by (auto elim!: pushToSheets_cases)

text \<open>
  A POST that throws is the last call of the loop; it belongs to an item of the
  snapshot; entries that the loop had not passed before are still queued, the
  failing one with its retry counter set to the snapshot's plus one.
\<close>

lemma push_loop_fault:
  assumes "push_loop rt items p e st = (p', e', st')"
    and "sent st' = sent st @ calls"
    and "Posted q req Threw \<in> set calls"
  shows "\<exists>pre it post before. items = pre @ it # post \<and> e_id it = q
           \<and> push_request it = Some req \<and> e_retries it < MAX_RETRIES
           \<and> calls = before @ [Posted q req Threw]
           \<and> (\<forall>y \<in> set (queue st). e_id y \<notin> e_id ` set pre \<longrightarrow>
                  (if e_id y = q then y\<lparr>e_retries := e_retries it + 1\<rparr> else y) \<in> set (queue st'))
           \<and> e < e'"
  using assms
proof (induction items arbitrary: p e st calls)
  case Nil
  then show ?case by simp
next
  case (Cons item items)
  show ?case
  proof (cases "e_retries item \<ge> MAX_RETRIES")
    case True
    define st2 where "st2 = removeFromQueue (e_id item) st"
    from True Cons.prems have lp: "push_loop rt items p (e + 1) st2 = (p', e', st')"
      by (simp add: st2_def)
    have s2: "sent st' = sent st2 @ calls" using Cons.prems by (simp add: st2_def)
    from Cons.IH [OF lp s2 Cons.prems(3)] obtain pre it post before where
      ih: "items = pre @ it # post" "e_id it = q" "push_request it = Some req"
          "e_retries it < MAX_RETRIES" "calls = before @ [Posted q req Threw]"
          "\<forall>y \<in> set (queue st2). e_id y \<notin> e_id ` set pre \<longrightarrow>
                  (if e_id y = q then y\<lparr>e_retries := e_retries it + 1\<rparr> else y) \<in> set (queue st')"
          "e + 1 < e'"
      by blast
    have "item # items = (item # pre) @ it # post" using ih by simp
    moreover have "\<forall>y \<in> set (queue st). e_id y \<notin> e_id ` set (item # pre) \<longrightarrow>
                  (if e_id y = q then y\<lparr>e_retries := e_retries it + 1\<rparr> else y) \<in> set (queue st')"
      using ih(6) by (simp add: st2_def)
    moreover have "e < e'" using ih by simp
    ultimately show ?thesis using ih by blast
  next
    case False
    obtain res st1 where ps: "pushToSheets rt item st = (res, st1)"
      by (cases "pushToSheets rt item st")
    note snt = pushToSheets_sent [OF ps]
    have q1: "queue st1 = queue st" using pushToSheets_frame [OF ps] by simp
    show ?thesis
    proof (cases res)
      case Threw
      with Cons.prems False ps have st': "st' = incrementRetries (e_id item) (e_retries item) st1"
        and e': "e' = e + 1"
        by simp_all
      from snt Threw obtain r where r: "push_request item = Some r"
        "sent st1 = sent st @ [Posted (e_id item) r Threw]"
        by auto
      with st' Cons.prems have c: "calls = [Posted (e_id item) r Threw]" by simp
      with Cons.prems have qr: "q = e_id item" "req = r" by simp_all
      have "item # items = [] @ item # items" by simp
      moreover have "calls = [] @ [Posted q req Threw]" using c qr by simp
      moreover have "\<forall>y \<in> set (queue st). e_id y \<notin> e_id ` set [] \<longrightarrow>
                  (if e_id y = q then y\<lparr>e_retries := e_retries item + 1\<rparr> else y) \<in> set (queue st')"
        using st' q1 qr by auto
      ultimately show ?thesis using qr r False e' by (metis Suc_eq_plus1 lessI not_le)
    next
      case (Returned ok)
      define st2 where "st2 = (if ok then after_success item st1
                               else incrementRetries (e_id item) (e_retries item) st1)"
      have s2: "sent st2 = sent st1" by (simp add: st2_def)
      define p2 where "p2 = (if ok then p + 1 else p)"
      define e2 where "e2 = (if ok then e else e + 1)"
      from Cons.prems False ps Returned
      have lp: "push_loop rt items p2 e2 st2 = (p', e', st')"
        by (simp add: st2_def p2_def e2_def split: if_splits)
      have e2: "e \<le> e2" by (simp add: e2_def)
      from push_loop_sent [OF lp] obtain c2 where c2: "sent st' = sent st2 @ c2" by blast
      from snt Returned obtain c1 where c1: "sent st1 = sent st @ c1"
        "\<forall>c \<in> set c1. \<forall>a b. c \<noteq> Posted a b Threw"
        by auto
      from c1 c2 s2 Cons.prems have calls: "calls = c1 @ c2" by simp
      with c1 Cons.prems have "Posted q req Threw \<in> set c2" by auto
      from Cons.IH [OF lp c2 this] obtain pre it post before where
        ih: "items = pre @ it # post" "e_id it = q" "push_request it = Some req"
          "e_retries it < MAX_RETRIES" "c2 = before @ [Posted q req Threw]"
          "\<forall>y \<in> set (queue st2). e_id y \<notin> e_id ` set pre \<longrightarrow>
                  (if e_id y = q then y\<lparr>e_retries := e_retries it + 1\<rparr> else y) \<in> set (queue st')"
          "e2 < e'"
        by blast
      have keep: "y \<in> set (queue st2)" if "y \<in> set (queue st)" "e_id y \<noteq> e_id item" for y
        using that q1 by (auto simp: st2_def)
      have "item # items = (item # pre) @ it # post" using ih by simp
      moreover have "calls = (c1 @ before) @ [Posted q req Threw]" using calls ih by simp
      moreover have "\<forall>y \<in> set (queue st). e_id y \<notin> e_id ` set (item # pre) \<longrightarrow>
                  (if e_id y = q then y\<lparr>e_retries := e_retries it + 1\<rparr> else y) \<in> set (queue st')"
        using ih(6) keep by simp
      moreover have "e < e'" using ih e2 by simp
      ultimately show ?thesis using ih by blast
    qed
  qed
qed


lemma snapshot_sorted_distinct:
  assumes "distinct (map e_id q)"
  shows "sorted (map e_id (sort_key e_id q))" and "distinct (map e_id (sort_key e_id q))"
    and "set (sort_key e_id q) = set q"
  using assms by (simp_all add: distinct_map)

lemma before_in_sorted:
  assumes "sorted (map f (pre @ it # post))" and "distinct (map f (pre @ it # post))"
    and "z \<in> set pre"
  shows "f z < f it"
proof -
  from assms have "f z \<le> f it" by (auto simp: sorted_append)
  moreover from assms(2) have "f it \<notin> f ` set pre" by auto
  with assms(3) have "f z \<noteq> f it" by (metis imageI)
  ultimately show ?thesis by simp
qed

lemma push_loop_fault_step:
  assumes "e_retries item < MAX_RETRIES"
    and "push_request item = Some req"
    and "rt_post rt req (world st) = (Threw, w)"
  shows "push_loop rt (item # items) p e st
         = (p, e + 1, incrementRetries (e_id item) (e_retries item)
                        (st\<lparr>sent := sent st @ [Posted (e_id item) req Threw], world := w\<rparr>))"
  using assms by (simp add: pushToSheets_def)

text \<open>
  C1.  A POST that throws in a sync cycle (queue ids being distinct, as keys of
  the \<open>sync_queue\<close> store are, and no entry naming that store itself): it
  carries a queued entry \<open>x\<close>; \<open>x\<close> stays
  queued with its retry counter one higher; every entry queued behind \<open>x\<close>
  stays queued as it was; after the throwing POST the cycle issues reads only,
  so no later entry is transmitted; the cycle reports an error.  At the loop
  step itself: whatever entries follow \<open>x\<close>, the loop ends there with exactly
  one more error, that one call recorded, no entry removed and the record
  stores untouched.
\<close>

theorem halt_on_network_fault:
  fixes rt :: "'w runtime"
  assumes "syncNow rt st = (res, st')"
    and "distinct (map e_id (queue st))"
    and "sent st' = sent st @ calls"
    and "Posted q req Threw \<in> set calls"
    and "\<forall>y \<in> set (queue st). e_sheet y \<noteq> ''sync_queue''"
  shows "\<exists>x before reads.
           x \<in> set (queue st) \<and> e_id x = q \<and> push_request x = Some req
         \<and> x\<lparr>e_retries := e_retries x + 1\<rparr> \<in> set (queue st')
         \<and> (\<forall>y \<in> set (queue st). q < e_id y \<longrightarrow> y \<in> set (queue st'))
         \<and> calls = before @ Posted q req Threw # reads
         \<and> (\<forall>c \<in> set reads. \<exists>r. c = Fetched r)
         \<and> 0 < errors res
         \<and> (\<forall>items p e s w. rt_post rt req (world s) = (Threw, w) \<longrightarrow>
               (\<exists>s'. push_loop rt (x # items) p e s = (p, e + 1, s')
                   \<and> sent s' = sent s @ [Posted q req Threw]
                   \<and> map e_id (queue s') = map e_id (queue s)
                   \<and> tables s' = tables s))"
proof -
  let ?items = "sort_key e_id (queue st)"
  let ?st0 = "st\<lparr>world := snd (rt_online rt (world st))\<rparr>"
  from syncNow_phases [OF assms(1)] assms(3,4)
  obtain p e st1 fs where
    pl: "push_loop rt ?items 0 0 ?st0 = (p, e, st1)"
    and r: "errors res = e" "queue st' = queue st1" "sent st' = sent st1 @ fs"
    and fs: "\<forall>c \<in> set fs. \<not> is_posted c"
    by auto
  from push_loop_sent [OF pl] obtain pc where pc: "sent st1 = sent ?st0 @ pc" by blast
  with r assms(3) have calls: "calls = pc @ fs" by simp
  with fs assms(4) have inpc: "Posted q req Threw \<in> set pc" by auto
  from push_loop_fault [OF pl pc inpc] obtain pre it post before where
    f: "?items = pre @ it # post" "e_id it = q" "push_request it = Some req"
       "e_retries it < MAX_RETRIES" "pc = before @ [Posted q req Threw]"
       "\<forall>y \<in> set (queue ?st0). e_id y \<notin> e_id ` set pre \<longrightarrow>
            (if e_id y = q then y\<lparr>e_retries := e_retries it + 1\<rparr> else y) \<in> set (queue st1)"
       "0 < e"
    by blast
  note sd = snapshot_sorted_distinct [OF assms(2)]
  have lt: "e_id z < q" if "z \<in> set pre" for z
    using before_in_sorted [of e_id pre it post z] sd f(1,2) that by simp
  have itq: "it \<in> set (queue st)"
    using sd(3) f(1) by (metis in_set_conv_decomp)
  have a: "it\<lparr>e_retries := e_retries it + 1\<rparr> \<in> set (queue st')"
    using f(6) itq f(2) lt r(2) by fastforce
  have b: "\<forall>y \<in> set (queue st). q < e_id y \<longrightarrow> y \<in> set (queue st')"
  proof (intro ballI impI)
    fix y assume y: "y \<in> set (queue st)" "q < e_id y"
    then have "e_id y \<notin> e_id ` set pre" using lt by fastforce
    with f(6) y r(2) show "y \<in> set (queue st')" by auto
  qed
  have c: "calls = before @ Posted q req Threw # fs" using calls f(5) by simp
  have d: "\<forall>c \<in> set fs. \<exists>r. c = Fetched r"
    using fs by (metis call_simps(1) gwcall.exhaust)
  have s: "\<forall>items p e s w. rt_post rt req (world s) = (Threw, w) \<longrightarrow>
               (\<exists>s'. push_loop rt (it # items) p e s = (p, e + 1, s')
                   \<and> sent s' = sent s @ [Posted q req Threw]
                   \<and> map e_id (queue s') = map e_id (queue s)
                   \<and> tables s' = tables s)"
  proof (intro allI impI)
    fix items p e and s :: "'w state" and w
    assume "rt_post rt req (world s) = (Threw, w)"
    from push_loop_fault_step [OF f(4) f(3) this, of items p e]
    show "\<exists>s'. push_loop rt (it # items) p e s = (p, e + 1, s')
                   \<and> sent s' = sent s @ [Posted q req Threw]
                   \<and> map e_id (queue s') = map e_id (queue s)
                   \<and> tables s' = tables s"
      using f(2) by (simp add: comp_def del: push_loop.simps)
  qed
  from itq f(2,3) a b c d f(7) r(1) s show ?thesis by blast
qed


section \<open>Rejected and exhausted entries\<close>

text \<open>
  What a push loop does to the queue: it only drops or re-stamps entries of its
  snapshot, and never lowers the error count.
\<close>

lemma incrementRetries_ids:
  "e_id ` set (queue (incrementRetries q n st)) = e_id ` set (queue st)"
proof -
  have "map e_id (queue (incrementRetries q n st)) = map e_id (queue st)"
    by (auto simp: comp_def)
  then have "set (map e_id (queue (incrementRetries q n st))) = set (map e_id (queue st))"
    by simp
  then show ?thesis by (simp only: set_map)
qed

lemma push_loop_queue:
  assumes "push_loop rt items p e st = (p', e', st')"
  shows "e_id ` set (queue st') \<subseteq> e_id ` set (queue st)
       \<and> (\<forall>y \<in> set (queue st). e_id y \<notin> e_id ` set items \<longrightarrow> y \<in> set (queue st'))
       \<and> e \<le> e'"
  using assms
proof (induction items arbitrary: p e st)
  case Nil
  then show ?case by simp
next
  case (Cons item items)
  show ?case
  proof (cases "e_retries item \<ge> MAX_RETRIES")
    case True
    with Cons.prems have "push_loop rt items p (e + 1) (removeFromQueue (e_id item) st) = (p', e', st')"
      by simp
    from Cons.IH [OF this] show ?thesis by auto
  next
    case False
    obtain res st1 where ps: "pushToSheets rt item st = (res, st1)"
      by (cases "pushToSheets rt item st")
    have q1: "queue st1 = queue st" using pushToSheets_frame [OF ps] by simp
    show ?thesis
    proof (cases res)
      case Threw
      with Cons.prems False ps have "st' = incrementRetries (e_id item) (e_retries item) st1"
        and "e' = e + 1"
        by simp_all
      with q1 incrementRetries_ids [of "e_id item" "e_retries item" st1] show ?thesis
        by auto
    next
      case (Returned ok)
      define st2 where "st2 = (if ok then after_success item st1
                               else incrementRetries (e_id item) (e_retries item) st1)"
      define p2 where "p2 = (if ok then p + 1 else p)"
      define e2 where "e2 = (if ok then e else e + 1)"
      from Cons.prems False ps Returned
      have lp: "push_loop rt items p2 e2 st2 = (p', e', st')"
        by (simp add: st2_def p2_def e2_def split: if_splits)
      have ids: "e_id ` set (queue st2) \<subseteq> e_id ` set (queue st)"
        using q1 incrementRetries_ids [of "e_id item" "e_retries item" st1]
        by (auto simp: st2_def)
      have keep: "y \<in> set (queue st2)" if "y \<in> set (queue st)" "e_id y \<noteq> e_id item" for y
        using that q1 by (auto simp: st2_def)
      from Cons.IH [OF lp] have ih: "e_id ` set (queue st') \<subseteq> e_id ` set (queue st2)"
        "\<forall>y \<in> set (queue st2). e_id y \<notin> e_id ` set items \<longrightarrow> y \<in> set (queue st')"
        "e2 \<le> e'"
        by simp_all
      have "e_id ` set (queue st') \<subseteq> e_id ` set (queue st)" using ih(1) ids by blast
      moreover have "\<forall>y \<in> set (queue st). e_id y \<notin> e_id ` set (item # items) \<longrightarrow> y \<in> set (queue st')"
        using ih(2) keep by simp
      moreover have "e \<le> e'" using ih(3) by (simp add: e2_def split: if_splits)
      ultimately show ?thesis by blast
    qed
  qed
qed

lemma push_loop_rejected:
  assumes "push_loop rt items p e st = (p', e', st')"
    and "sent st' = sent st @ calls"
    and "Posted q req (Returned False) \<in> set calls"
    and "distinct (map e_id items)"
  shows "\<exists>it \<in> set items. e_id it = q \<and> push_request it = Some req \<and> e_retries it < MAX_RETRIES
           \<and> (\<forall>y \<in> set (queue st). e_id y = q \<longrightarrow> y\<lparr>e_retries := e_retries it + 1\<rparr> \<in> set (queue st'))
           \<and> e < e'"
  using assms
proof (induction items arbitrary: p e st calls)
  case Nil
  then show ?case by simp
next
  case (Cons item items)
  from Cons.prems(4) have dist: "distinct (map e_id items)" and fresh: "e_id item \<notin> e_id ` set items"
    by simp_all
  show ?case
  proof (cases "e_retries item \<ge> MAX_RETRIES")
    case True
    define st2 where "st2 = removeFromQueue (e_id item) st"
    from True Cons.prems have lp: "push_loop rt items p (e + 1) st2 = (p', e', st')"
      by (simp add: st2_def)
    have s2: "sent st' = sent st2 @ calls" using Cons.prems by (simp add: st2_def)
    from Cons.IH [OF lp s2 Cons.prems(3) dist] obtain it where
      ih: "it \<in> set items" "e_id it = q" "push_request it = Some req" "e_retries it < MAX_RETRIES"
          "\<forall>y \<in> set (queue st2). e_id y = q \<longrightarrow> y\<lparr>e_retries := e_retries it + 1\<rparr> \<in> set (queue st')"
          "e + 1 < e'"
      by blast
    from ih(1,2) fresh have "q \<noteq> e_id item" by (metis imageI)
    with ih(5) have "\<forall>y \<in> set (queue st). e_id y = q \<longrightarrow> y\<lparr>e_retries := e_retries it + 1\<rparr> \<in> set (queue st')"
      by (simp add: st2_def)
    with ih show ?thesis by auto
  next
    case False
    obtain res st1 where ps: "pushToSheets rt item st = (res, st1)"
      by (cases "pushToSheets rt item st")
    note snt = pushToSheets_sent [OF ps]
    have q1: "queue st1 = queue st" using pushToSheets_frame [OF ps] by simp
    show ?thesis
    proof (cases res)
      case Threw
      with Cons.prems False ps have "st' = incrementRetries (e_id item) (e_retries item) st1"
        by simp
      with snt Threw Cons.prems(2,3) show ?thesis by auto
    next
      case (Returned ok)
      define st2 where "st2 = (if ok then after_success item st1
                               else incrementRetries (e_id item) (e_retries item) st1)"
      define p2 where "p2 = (if ok then p + 1 else p)"
      define e2 where "e2 = (if ok then e else e + 1)"
      have s2: "sent st2 = sent st1" by (simp add: st2_def)
      from Cons.prems False ps Returned
      have lp: "push_loop rt items p2 e2 st2 = (p', e', st')"
        by (simp add: st2_def p2_def e2_def split: if_splits)
      from push_loop_sent [OF lp] obtain c2 where c2: "sent st' = sent st2 @ c2" by blast
      note pq = push_loop_queue [OF lp]
      show ?thesis
      proof (cases "Posted q req (Returned False) \<in> set c2")
        case True
        from Cons.IH [OF lp c2 True dist] obtain it where
          ih: "it \<in> set items" "e_id it = q" "push_request it = Some req" "e_retries it < MAX_RETRIES"
            "\<forall>y \<in> set (queue st2). e_id y = q \<longrightarrow> y\<lparr>e_retries := e_retries it + 1\<rparr> \<in> set (queue st')"
            "e2 < e'"
          by blast
        from ih(1,2) fresh have ne: "q \<noteq> e_id item" by (metis imageI)
        have "y \<in> set (queue st2)" if "y \<in> set (queue st)" "e_id y = q" for y
          using that q1 ne by (auto simp: st2_def)
        with ih(5) have "\<forall>y \<in> set (queue st). e_id y = q \<longrightarrow> y\<lparr>e_retries := e_retries it + 1\<rparr> \<in> set (queue st')"
          by blast
        moreover have "e < e'" using ih(6) by (simp add: e2_def split: if_splits)
        ultimately show ?thesis using ih by auto
      next
        case False
        with snt Returned c2 s2 Cons.prems(2,3)
        have here: "q = e_id item" "push_request item = Some req" "\<not> ok"
          by auto
        have "y\<lparr>e_retries := e_retries item + 1\<rparr> \<in> set (queue st')"
          if "y \<in> set (queue st)" "e_id y = q" for y
        proof -
          from that q1 here have "y\<lparr>e_retries := e_retries item + 1\<rparr> \<in> set (queue st2)"
            by (auto simp: st2_def image_iff)
          moreover have "e_id (y\<lparr>e_retries := e_retries item + 1\<rparr>) \<notin> e_id ` set items"
            using that here fresh by simp
          ultimately show ?thesis using pq by blast
        qed
        moreover have "e < e'" using pq here by (simp add: e2_def)
        ultimately show ?thesis using here \<open>\<not> MAX_RETRIES \<le> e_retries item\<close> by auto
      qed
    qed
  qed
qed

lemma push_loop_exhausted:
  assumes "push_loop rt items p e st = (p', e', st')"
    and "sent st' = sent st @ calls"
    and "x \<in> set items"
    and "MAX_RETRIES \<le> e_retries x"
    and "distinct (map e_id items)"
    and "sorted (map e_id items)"
    and "\<forall>q r. Posted q r Threw \<in> set calls \<longrightarrow> e_id x < q"
  shows "e_id x \<notin> e_id ` set (queue st') \<and> (\<forall>r res. Posted (e_id x) r res \<notin> set calls) \<and> e < e'"
  using assms
proof (induction items arbitrary: p e st calls)
  case Nil
  then show ?case by simp
next
  case (Cons item items)
  from Cons.prems(5) have dist: "distinct (map e_id items)" and fresh: "e_id item \<notin> e_id ` set items"
    by simp_all
  from Cons.prems(6) have srt: "sorted (map e_id items)" and low: "\<forall>z \<in> set items. e_id item \<le> e_id z"
    by simp_all
  show ?case
  proof (cases "item = x")
    case True
    define st2 where "st2 = removeFromQueue (e_id item) st"
    from True Cons.prems have lp: "push_loop rt items p (e + 1) st2 = (p', e', st')"
      by (simp add: st2_def)
    have s2: "sent st' = sent st2 @ calls" using Cons.prems by (simp add: st2_def)
    from push_loop_sent [OF lp] s2 have "\<forall>c \<in> set calls. is_posted c \<and> call_for c \<in> e_id ` set items"
      by auto
    then have "\<forall>r res. Posted (e_id x) r res \<notin> set calls"
      using fresh True by fastforce
    moreover have "e_id x \<notin> e_id ` set (queue st2)" using True by (auto simp: st2_def)
    then have "e_id x \<notin> e_id ` set (queue st')" using push_loop_queue [OF lp] by blast
    moreover have "e < e'" using push_loop_queue [OF lp] by simp
    ultimately show ?thesis by blast
  next
    case False
    with Cons.prems(3) have xin: "x \<in> set items" by simp
    with fresh have ne: "e_id item \<noteq> e_id x" by (metis imageI)
    from xin low have le: "e_id item \<le> e_id x" by simp
    show ?thesis
    proof (cases "e_retries item \<ge> MAX_RETRIES")
      case True
      define st2 where "st2 = removeFromQueue (e_id item) st"
      from True Cons.prems have lp: "push_loop rt items p (e + 1) st2 = (p', e', st')"
        by (simp add: st2_def)
      have s2: "sent st' = sent st2 @ calls" using Cons.prems by (simp add: st2_def)
      from Cons.IH [OF lp s2 xin Cons.prems(4) dist srt Cons.prems(7)] show ?thesis by simp
    next
      case nex: False
      obtain res st1 where ps: "pushToSheets rt item st = (res, st1)"
        by (cases "pushToSheets rt item st")
      note snt = pushToSheets_sent [OF ps]
      show ?thesis
      proof (cases res)
        case Threw
        with Cons.prems nex ps have "st' = incrementRetries (e_id item) (e_retries item) st1"
          by simp
        with snt Threw Cons.prems(2) obtain r where "calls = [Posted (e_id item) r Threw]"
          by auto
        with Cons.prems(7) have "e_id x < e_id item" by simp
        with le show ?thesis by simp
      next
        case (Returned ok)
        define st2 where "st2 = (if ok then after_success item st1
                               else incrementRetries (e_id item) (e_retries item) st1)"
        define p2 where "p2 = (if ok then p + 1 else p)"
        define e2 where "e2 = (if ok then e else e + 1)"
        have s2: "sent st2 = sent st1" by (simp add: st2_def)
        from Cons.prems nex ps Returned
        have lp: "push_loop rt items p2 e2 st2 = (p', e', st')"
          by (simp add: st2_def p2_def e2_def split: if_splits)
        from push_loop_sent [OF lp] obtain c2 where c2: "sent st' = sent st2 @ c2" by blast
        from snt obtain c1 where c1: "sent st1 = sent st @ c1"
          "\<forall>c \<in> set c1. call_for c = e_id item \<and> is_posted c"
          by auto
        from c1 c2 s2 Cons.prems(2) have calls: "calls = c1 @ c2" by simp
        with Cons.prems(7) have "\<forall>q r. Posted q r Threw \<in> set c2 \<longrightarrow> e_id x < q" by simp
        from Cons.IH [OF lp c2 xin Cons.prems(4) dist srt this]
        have ih: "e_id x \<notin> e_id ` set (queue st')" "\<forall>r res. Posted (e_id x) r res \<notin> set c2" "e2 < e'"
          by simp_all
        have "\<forall>r res. Posted (e_id x) r res \<notin> set c1" using c1 ne by fastforce
        with ih calls have "\<forall>r res. Posted (e_id x) r res \<notin> set calls" by simp
        moreover have "e < e'" using ih(3) by (simp add: e2_def split: if_splits)
        ultimately show ?thesis using ih(1) by blast
      qed
    qed
  qed
qed


lemma same_id_same_entry:
  assumes "distinct (map e_id q)" and "a \<in> set q" and "b \<in> set q" and "e_id a = e_id b"
  shows "a = b"
  using assms by (auto simp: distinct_map inj_on_def)

lemma push_loop_rejected_step:
  assumes "e_retries item < MAX_RETRIES"
    and "push_request item = Some req"
    and "rt_post rt req (world st) = (Returned False, w)"
  shows "push_loop rt (item # items) p e st
         = push_loop rt items p (e + 1)
             (incrementRetries (e_id item) (e_retries item)
                (st\<lparr>sent := sent st @ [Posted (e_id item) req (Returned False)], world := w\<rparr>))"
  using assms by (simp add: pushToSheets_def)

text \<open>The push loop of a cycle that ran, with the calls split into POSTs and reads.\<close>

lemma syncNow_push_loop:
  assumes "syncNow rt st = (res, st')"
    and "sent st' = sent st @ calls"
    and "(fst (rt_online rt (world st)) \<and> has_url st) \<or> (\<exists>c \<in> set calls. is_posted c)"
  shows "\<exists>p st0 st1 pc fs.
           push_loop rt (sort_key e_id (queue st)) 0 0 st0 = (p, errors res, st1)
         \<and> queue st0 = queue st
         \<and> sent st1 = sent st0 @ pc
         \<and> queue st' = queue st1 \<and> calls = pc @ fs
         \<and> (\<forall>c \<in> set pc. is_posted c) \<and> (\<forall>c \<in> set fs. \<not> is_posted c)"
proof -
  let ?st0 = "st\<lparr>world := snd (rt_online rt (world st))\<rparr>"
  from syncNow_phases [OF assms(1)]
  show ?thesis
  proof
    assume off: "\<not> (fst (rt_online rt (world st)) \<and> has_url st)
          \<and> st' = ?st0 \<and> res = \<lparr>pushed = 0, pulled = 0, errors = 0\<rparr>"
    with assms(2) have "calls = []" by simp
    with assms(3) off show ?thesis by simp
  next
    assume "\<exists>p e st1 fs. push_loop rt (sort_key e_id (queue st)) 0 0 ?st0 = (p, e, st1)
            \<and> pushed res = p \<and> errors res = e
            \<and> queue st' = queue st1 \<and> sent st' = sent st1 @ fs \<and> (\<forall>c \<in> set fs. \<not> is_posted c)"
    then obtain p st1 fs where
      pl: "push_loop rt (sort_key e_id (queue st)) 0 0 ?st0 = (p, errors res, st1)"
      and r: "queue st' = queue st1" "sent st' = sent st1 @ fs" "\<forall>c \<in> set fs. \<not> is_posted c"
      by auto
    from push_loop_sent [OF pl] obtain pc where pc: "sent st1 = sent ?st0 @ pc"
      "\<forall>c \<in> set pc. is_posted c"
      by blast
    with r assms(2) have c: "calls = pc @ fs" by simp
    have "queue ?st0 = queue st" by simp
    with pl pc r c show ?thesis by blast
  qed
qed

text \<open>
  An entry of the snapshot that is not exhausted and has a request is POSTed by
  the loop, unless a POST for an earlier entry throws.
\<close>

lemma push_loop_attempted:
  assumes "push_loop rt items p e st = (p', e', st')"
    and "sent st' = sent st @ calls"
    and "y \<in> set items"
    and "e_retries y < MAX_RETRIES" and "push_request y = Some r"
    and "distinct (map e_id items)"
    and "sorted (map e_id items)"
    and "\<forall>q r'. Posted q r' Threw \<in> set calls \<longrightarrow> e_id y \<le> q"
  shows "\<exists>outcome. Posted (e_id y) r outcome \<in> set calls"
  using assms
proof (induction items arbitrary: p e st calls)
  case Nil
  then show ?case by simp
next
  case (Cons item items)
  from Cons.prems(6) have dist: "distinct (map e_id items)" and fresh: "e_id item \<notin> e_id ` set items"
    by simp_all
  from Cons.prems(7) have srt: "sorted (map e_id items)" and low: "\<forall>z \<in> set items. e_id item \<le> e_id z"
    by simp_all
  show ?case
  proof (cases "item = y")
    case True
    obtain res st1 where ps: "pushToSheets rt item st = (res, st1)"
      by (cases "pushToSheets rt item st")
    from pushToSheets_sent [OF ps] True Cons.prems(5)
    have s1: "sent st1 = sent st @ [Posted (e_id y) r res]" by simp
    show ?thesis
    proof (cases res)
      case Threw
      with Cons.prems(1,4) True ps have "st' = incrementRetries (e_id item) (e_retries item) st1"
        by simp
      with s1 Cons.prems(2) show ?thesis by auto
    next
      case (Returned ok)
      define st2 where "st2 = (if ok then after_success item st1
                               else incrementRetries (e_id item) (e_retries item) st1)"
      define p2 where "p2 = (if ok then p + 1 else p)"
      define e2 where "e2 = (if ok then e else e + 1)"
      have s2: "sent st2 = sent st1" by (simp add: st2_def)
      from Cons.prems(1,4) True ps Returned
      have lp: "push_loop rt items p2 e2 st2 = (p', e', st')"
        by (simp add: st2_def p2_def e2_def split: if_splits)
      from push_loop_sent [OF lp] obtain c2 where "sent st' = sent st2 @ c2" by blast
      with s1 s2 Cons.prems(2) have "calls = Posted (e_id y) r res # c2" by simp
      then show ?thesis by auto
    qed
  next
    case False
    with Cons.prems(3) have yin: "y \<in> set items" by simp
    with fresh have ne: "e_id item \<noteq> e_id y" by (metis imageI)
    from yin low have "e_id item \<le> e_id y" by simp
    with ne have lt: "e_id item < e_id y" by simp
    show ?thesis
    proof (cases "e_retries item \<ge> MAX_RETRIES")
      case True
      define st2 where "st2 = removeFromQueue (e_id item) st"
      from True Cons.prems have lp: "push_loop rt items p (e + 1) st2 = (p', e', st')"
        by (simp add: st2_def)
      have s2: "sent st' = sent st2 @ calls" using Cons.prems by (simp add: st2_def)
      from Cons.IH [OF lp s2 yin Cons.prems(4,5) dist srt Cons.prems(8)] show ?thesis .
    next
      case nex: False
      obtain res st1 where ps: "pushToSheets rt item st = (res, st1)"
        by (cases "pushToSheets rt item st")
      note snt = pushToSheets_sent [OF ps]
      show ?thesis
      proof (cases res)
        case Threw
        with Cons.prems nex ps have "st' = incrementRetries (e_id item) (e_retries item) st1"
          by simp
        with snt Threw Cons.prems(2) obtain r' where "calls = [Posted (e_id item) r' Threw]"
          by auto
        with Cons.prems(8) have "e_id y \<le> e_id item" by simp
        with lt show ?thesis by simp
      next
        case (Returned ok)
        define st2 where "st2 = (if ok then after_success item st1
                               else incrementRetries (e_id item) (e_retries item) st1)"
        define p2 where "p2 = (if ok then p + 1 else p)"
        define e2 where "e2 = (if ok then e else e + 1)"
        have s2: "sent st2 = sent st1" by (simp add: st2_def)
        from Cons.prems nex ps Returned
        have lp: "push_loop rt items p2 e2 st2 = (p', e', st')"
          by (simp add: st2_def p2_def e2_def split: if_splits)
        from push_loop_sent [OF lp] obtain c2 where c2: "sent st' = sent st2 @ c2" by blast
        from snt obtain c1 where c1: "sent st1 = sent st @ c1" by auto
        from c1 c2 s2 Cons.prems(2) have calls: "calls = c1 @ c2" by simp
        with Cons.prems(8) have "\<forall>q r'. Posted q r' Threw \<in> set c2 \<longrightarrow> e_id y \<le> q" by simp
        from Cons.IH [OF lp c2 yin Cons.prems(4,5) dist srt this] calls show ?thesis by auto
      qed
    qed
  qed
qed

lemma syncNow_attempted:
  assumes "syncNow rt st = (res, st')"
    and "fst (rt_online rt (world st)) \<and> has_url st \<or> (\<exists>c \<in> set calls. is_posted c)"
    and "distinct (map e_id (queue st))"
    and "sent st' = sent st @ calls"
    and "y \<in> set (queue st)" and "e_retries y < MAX_RETRIES" and "push_request y = Some r"
    and "\<forall>q r'. Posted q r' Threw \<in> set calls \<longrightarrow> e_id y \<le> q"
  shows "\<exists>outcome. Posted (e_id y) r outcome \<in> set calls"
proof -
  from syncNow_push_loop [OF assms(1,4,2)] obtain p st0 st1 pc fs where
    pl: "push_loop rt (sort_key e_id (queue st)) 0 0 st0 = (p, errors res, st1)"
    and r: "queue st0 = queue st" "sent st1 = sent st0 @ pc" "queue st' = queue st1"
      "calls = pc @ fs" "\<forall>c \<in> set fs. \<not> is_posted c"
    by blast
  note sd = snapshot_sorted_distinct [OF assms(3)]
  have y: "y \<in> set (sort_key e_id (queue st))" using sd(3) assms(5) by simp
  have thr: "\<forall>q r'. Posted q r' Threw \<in> set pc \<longrightarrow> e_id y \<le> q" using assms(8) r(4) by simp
  from push_loop_attempted [OF pl r(2) y assms(6,7) sd(2) sd(1) thr] r(4) show ?thesis by auto
qed

text \<open>
  C6.  A POST answered \<open>{success:false}\<close> in a sync cycle (queue ids being
  distinct, no entry naming the \<open>sync_queue\<close> store itself): it carries a
  queued entry \<open>x\<close>; after the cycle \<open>x\<close> is still queued, with its retry
  counter one higher; the cycle reports an error.  At the loop
  step itself the loop counts one more error and goes on with the entries that
  follow, from a state in which only the retry counter of \<open>x\<close> and the trace
  have changed.  And in the cycle every queued entry that is not exhausted and
  has a request is POSTed, unless a POST for an earlier entry throws: a
  rejection stops nothing.
\<close>

theorem rejection_keeps_entry_and_continues:
  fixes rt :: "'w runtime"
  assumes "syncNow rt st = (res, st')"
    and "distinct (map e_id (queue st))"
    and "sent st' = sent st @ calls"
    and "Posted q req (Returned False) \<in> set calls"
    and "\<forall>y \<in> set (queue st). e_sheet y \<noteq> ''sync_queue''"
  shows "\<exists>x. x \<in> set (queue st) \<and> e_id x = q \<and> push_request x = Some req
         \<and> x\<lparr>e_retries := e_retries x + 1\<rparr> \<in> set (queue st')
         \<and> 0 < errors res
         \<and> (\<forall>items p e (s :: 'w state) w. rt_post rt req (world s) = (Returned False, w) \<longrightarrow>
               push_loop rt (x # items) p e s
               = push_loop rt items p (e + 1)
                   (incrementRetries q (e_retries x)
                      (s\<lparr>sent := sent s @ [Posted q req (Returned False)], world := w\<rparr>)))
         \<and> (\<forall>y \<in> set (queue st). \<forall>r.
               e_retries y < MAX_RETRIES \<and> push_request y = Some r
               \<and> (\<forall>q' r'. Posted q' r' Threw \<in> set calls \<longrightarrow> e_id y \<le> q')
               \<longrightarrow> (\<exists>outcome. Posted (e_id y) r outcome \<in> set calls))"
proof -
  have "\<exists>c \<in> set calls. is_posted c" using assms(4) by force
  with syncNow_push_loop [OF assms(1,3)] obtain p st0 st1 pc fs where
    pl: "push_loop rt (sort_key e_id (queue st)) 0 0 st0 = (p, errors res, st1)"
    and r: "queue st0 = queue st" "sent st1 = sent st0 @ pc" "queue st' = queue st1"
      "calls = pc @ fs" "\<forall>c \<in> set fs. \<not> is_posted c"
    by blast
  from r assms(4) have inpc: "Posted q req (Returned False) \<in> set pc" by auto
  note sd = snapshot_sorted_distinct [OF assms(2)]
  from push_loop_rejected [OF pl r(2) inpc sd(2)] obtain it where
    f: "it \<in> set (queue st)" "e_id it = q" "push_request it = Some req" "e_retries it < MAX_RETRIES"
       "\<forall>y \<in> set (queue st). e_id y = q \<longrightarrow> y\<lparr>e_retries := e_retries it + 1\<rparr> \<in> set (queue st')"
       "0 < errors res"
    using sd(3) r(1,3) by auto
  have s: "\<forall>items p e (s :: 'w state) w. rt_post rt req (world s) = (Returned False, w) \<longrightarrow>
               push_loop rt (it # items) p e s
               = push_loop rt items p (e + 1)
                   (incrementRetries q (e_retries it)
                      (s\<lparr>sent := sent s @ [Posted q req (Returned False)], world := w\<rparr>))"
  proof (intro allI impI)
    fix items p e and s :: "'w state" and w
    assume "rt_post rt req (world s) = (Returned False, w)"
    from push_loop_rejected_step [OF f(4) f(3) this, of items p e]
    show "push_loop rt (it # items) p e s
               = push_loop rt items p (e + 1)
                   (incrementRetries q (e_retries it)
                      (s\<lparr>sent := sent s @ [Posted q req (Returned False)], world := w\<rparr>))"
      using f(2) by (simp del: push_loop.simps)
  qed
  have att: "\<forall>y \<in> set (queue st). \<forall>r.
               e_retries y < MAX_RETRIES \<and> push_request y = Some r
               \<and> (\<forall>q' r'. Posted q' r' Threw \<in> set calls \<longrightarrow> e_id y \<le> q')
               \<longrightarrow> (\<exists>outcome. Posted (e_id y) r outcome \<in> set calls)"
  proof (intro ballI allI impI)
    fix y r
    assume y: "y \<in> set (queue st)"
      and h: "e_retries y < MAX_RETRIES \<and> push_request y = Some r
               \<and> (\<forall>q' r'. Posted q' r' Threw \<in> set calls \<longrightarrow> e_id y \<le> q')"
    have ran: "fst (rt_online rt (world st)) \<and> has_url st \<or> (\<exists>c \<in> set calls. is_posted c)"
      using assms(4) by force
    from h syncNow_attempted [OF assms(1) ran assms(2,3) y]
    show "\<exists>outcome. Posted (e_id y) r outcome \<in> set calls" by blast
  qed
  from f s att show ?thesis by blast
qed

lemma push_loop_exhausted_step:
  assumes "MAX_RETRIES \<le> e_retries item"
  shows "push_loop rt (item # items) p e st
         = push_loop rt items p (e + 1) (removeFromQueue (e_id item) st)"
  using assms by simp

lemma syncNow_exhausted:
  assumes "syncNow rt st = (res, st')"
    and "fst (rt_online rt (world st))" and "has_url st"
    and "distinct (map e_id (queue st))"
    and "sent st' = sent st @ calls"
    and "x \<in> set (queue st)" and "MAX_RETRIES \<le> e_retries x"
    and "\<forall>q r. Posted q r Threw \<in> set calls \<longrightarrow> e_id x < q"
  shows "e_id x \<notin> e_id ` set (queue st') \<and> (\<forall>r res. Posted (e_id x) r res \<notin> set calls)
         \<and> 0 < errors res"
proof -
  from syncNow_push_loop [OF assms(1,5)] assms(2,3) obtain p st0 st1 pc fs where
    pl: "push_loop rt (sort_key e_id (queue st)) 0 0 st0 = (p, errors res, st1)"
    and r: "queue st0 = queue st" "sent st1 = sent st0 @ pc" "queue st' = queue st1"
      "calls = pc @ fs" "\<forall>c \<in> set fs. \<not> is_posted c"
    by blast
  note sd = snapshot_sorted_distinct [OF assms(4)]
  have x: "x \<in> set (sort_key e_id (queue st))" using sd(3) assms(6) by simp
  have thr: "\<forall>q r. Posted q r Threw \<in> set pc \<longrightarrow> e_id x < q" using assms(8) r(4) by simp
  from push_loop_exhausted [OF pl r(2) x assms(7) sd(2) sd(1) thr]
  have e: "e_id x \<notin> e_id ` set (queue st1)" "\<forall>r res. Posted (e_id x) r res \<notin> set pc"
    "0 < errors res"
    by simp_all
  have "\<forall>r res. Posted (e_id x) r res \<notin> set fs" using r(5) by force
  with e r show ?thesis by simp
qed


lemma push_loop_distinct:
  assumes "push_loop rt items p e st = (p', e', st')" and "distinct (map e_id (queue st))"
  shows "distinct (map e_id (queue st'))"
  using assms
proof (induction items arbitrary: p e st)
  case Nil
  then show ?case by simp
next
  case (Cons item items)
  have rm: "distinct (map e_id (queue (removeFromQueue (e_id item) s)))"
    if "distinct (map e_id (queue s))" for s :: "'a state"
    using that by (simp add: distinct_map_filter)
  have inc: "distinct (map e_id (queue (incrementRetries (e_id item) n s)))"
    if "distinct (map e_id (queue s))" for s :: "'a state" and n
  proof -
    have "map e_id (queue (incrementRetries (e_id item) n s)) = map e_id (queue s)"
      by (auto simp: comp_def)
    with that show ?thesis by (simp only:)
  qed
  show ?case
  proof (cases "e_retries item \<ge> MAX_RETRIES")
    case True
    with Cons.prems have "push_loop rt items p (e + 1) (removeFromQueue (e_id item) st) = (p', e', st')"
      by simp
    from Cons.IH [OF this rm [OF Cons.prems(2)]] show ?thesis .
  next
    case False
    obtain res st1 where ps: "pushToSheets rt item st = (res, st1)"
      by (cases "pushToSheets rt item st")
    have q1: "queue st1 = queue st" using pushToSheets_frame [OF ps] by simp
    with Cons.prems(2) have d1: "distinct (map e_id (queue st1))" by simp
    show ?thesis
    proof (cases res)
      case Threw
      with Cons.prems False ps have "st' = incrementRetries (e_id item) (e_retries item) st1"
        by simp
      with inc [OF d1] show ?thesis by (simp only:)
    next
      case (Returned ok)
      define st2 where "st2 = (if ok then after_success item st1
                               else incrementRetries (e_id item) (e_retries item) st1)"
      define p2 where "p2 = (if ok then p + 1 else p)"
      define e2 where "e2 = (if ok then e else e + 1)"
      from Cons.prems False ps Returned
      have lp: "push_loop rt items p2 e2 st2 = (p', e', st')"
        by (simp add: st2_def p2_def e2_def split: if_splits)
      have "distinct (map e_id (queue st2))"
      proof (cases ok)
        case True
        with d1 show ?thesis by (simp add: st2_def distinct_map_filter)
      next
        case False
        with inc [OF d1] show ?thesis by (simp only: st2_def if_False)
      qed
      from Cons.IH [OF lp this] show ?thesis .
    qed
  qed
qed

lemma syncNow_distinct:
  assumes "syncNow rt st = (res, st')" and "distinct (map e_id (queue st))"
  shows "distinct (map e_id (queue st'))"
  using syncNow_phases [OF assms(1)]
proof
  assume "\<not> (fst (rt_online rt (world st)) \<and> has_url st)
          \<and> st' = st\<lparr>world := snd (rt_online rt (world st))\<rparr> \<and> res = \<lparr>pushed = 0, pulled = 0, errors = 0\<rparr>"
  with assms(2) show ?thesis by simp
next
  assume "\<exists>p e st1 fs. push_loop rt (sort_key e_id (queue st)) 0 0 (st\<lparr>world := snd (rt_online rt (world st))\<rparr>) = (p, e, st1)
            \<and> pushed res = p \<and> errors res = e
            \<and> queue st' = queue st1 \<and> sent st' = sent st1 @ fs \<and> (\<forall>c \<in> set fs. \<not> is_posted c)"
  then obtain p e st1 where
    pl: "push_loop rt (sort_key e_id (queue st)) 0 0 (st\<lparr>world := snd (rt_online rt (world st))\<rparr>) = (p, e, st1)"
    and q: "queue st' = queue st1"
    by blast
  from push_loop_distinct [OF pl] assms(2) q show ?thesis by simp
qed

text \<open>A cycle in which the push of an entry fails leaves the entry queued with one more retry.\<close>

lemma syncNow_attempt_failed:
  assumes "syncNow rt st = (res, st')"
    and "distinct (map e_id (queue st))"
    and "sent st' = sent st @ calls"
    and "Posted (e_id x) req outcome \<in> set calls" and "outcome \<noteq> Returned True"
    and "x \<in> set (queue st)"
  shows "x\<lparr>e_retries := e_retries x + 1\<rparr> \<in> set (queue st')"
proof -
  have "\<exists>c \<in> set calls. is_posted c" using assms(4) by force
  with syncNow_push_loop [OF assms(1,3)] obtain p st0 st1 pc fs where
    pl: "push_loop rt (sort_key e_id (queue st)) 0 0 st0 = (p, errors res, st1)"
    and r: "queue st0 = queue st" "sent st1 = sent st0 @ pc" "queue st' = queue st1"
      "calls = pc @ fs" "\<forall>c \<in> set fs. \<not> is_posted c"
    by blast
  from r assms(4) have inpc: "Posted (e_id x) req outcome \<in> set pc" by auto
  note sd = snapshot_sorted_distinct [OF assms(2)]
  show ?thesis
  proof (cases outcome)
    case Threw
    from push_loop_fault [OF pl r(2) inpc [unfolded Threw]] obtain pre it post where
      f: "sort_key e_id (queue st) = pre @ it # post" "e_id it = e_id x"
         "\<forall>y \<in> set (queue st0). e_id y \<notin> e_id ` set pre \<longrightarrow>
            (if e_id y = e_id x then y\<lparr>e_retries := e_retries it + 1\<rparr> else y) \<in> set (queue st1)"
      by blast
    have "it \<in> set (queue st)" using sd(3) f(1) by (metis in_set_conv_decomp)
    with same_id_same_entry [OF assms(2) _ assms(6) f(2)] have it: "it = x" by simp
    have "e_id z < e_id x" if "z \<in> set pre" for z
      using before_in_sorted [of e_id pre it post z] sd f(1,2) that by simp
    then have "e_id x \<notin> e_id ` set pre" by fastforce
    with f(3) assms(6) r(1,3) it show ?thesis by auto
  next
    case (Returned ok)
    with assms(5) have "\<not> ok" by simp
    with Returned inpc have "Posted (e_id x) req (Returned False) \<in> set pc" by simp
    from push_loop_rejected [OF pl r(2) this sd(2)] obtain it where
      f: "it \<in> set (queue st)" "e_id it = e_id x"
       "\<forall>y \<in> set (queue st). e_id y = e_id x \<longrightarrow> y\<lparr>e_retries := e_retries it + 1\<rparr> \<in> set (queue st')"
      using sd(3) r(1,3) by auto
    from same_id_same_entry [OF assms(2) f(1) assms(6) f(2)] have "it = x" .
    with f(3) assms(6) show ?thesis by simp
  qed
qed


lemma push_failed_next:
  assumes "push_failed rt s s' (e_id x)" and "distinct (map e_id (queue s))" and "x \<in> set (queue s)"
  shows "distinct (map e_id (queue s')) \<and> x\<lparr>e_retries := e_retries x + 1\<rparr> \<in> set (queue s')"
proof -
  from assms(1) obtain res calls req outcome where
    c: "syncNow rt s = (res, s')" "sent s' = sent s @ calls"
       "Posted (e_id x) req outcome \<in> set calls" "outcome \<noteq> Returned True"
    unfolding push_failed_def by blast
  from syncNow_distinct [OF c(1) assms(2)] syncNow_attempt_failed [OF c(1) assms(2) c(2,3,4) assms(3)]
  show ?thesis by simp
qed

text \<open>
  C3.  First part: in a cycle that runs (online, URL configured, queue ids
  distinct) and whose loop reaches an entry \<open>x\<close> with
  \<open>retries \<ge> MAX_RETRIES\<close>, that is, no POST for an earlier entry throws,
  the entry is gone from the queue afterwards, no POST for it is among the
  calls of the cycle and the cycle reports an error; at the loop step itself the
  entry is removed, one error is counted, no call is made and the loop goes on
  with the next entry.  Second part: an entry whose push failed in three
  successive cycles (starting from a queue with distinct ids and no entry
  naming the \<open>sync_queue\<close> store itself) is, after a fourth cycle that
  reaches it, absent from the queue, with no POST for it in that cycle.
  \<open>MAX_RETRIES\<close> is 3.
\<close>

theorem retry_exhaustion:
  fixes rt :: "'w runtime"
  shows "(\<forall>(st :: 'w state) res st' calls x.
            syncNow rt st = (res, st') \<and> fst (rt_online rt (world st)) \<and> has_url st
            \<and> distinct (map e_id (queue st)) \<and> sent st' = sent st @ calls
            \<and> x \<in> set (queue st) \<and> MAX_RETRIES \<le> e_retries x
            \<and> (\<forall>q r. Posted q r Threw \<in> set calls \<longrightarrow> e_id x < q)
            \<longrightarrow> e_id x \<notin> e_id ` set (queue st')
              \<and> (\<forall>r outcome. Posted (e_id x) r outcome \<notin> set calls)
              \<and> 0 < errors res
              \<and> (\<forall>items p e (s :: 'w state).
                    push_loop rt (x # items) p e s
                    = push_loop rt items p (e + 1) (removeFromQueue (e_id x) s)))
       \<and> (\<forall>(s0 :: 'w state) s1 s2 s3 s4 res calls x.
            distinct (map e_id (queue s0)) \<and> x \<in> set (queue s0)
            \<and> (\<forall>y \<in> set (queue s0). e_sheet y \<noteq> ''sync_queue'')
            \<and> push_failed rt s0 s1 (e_id x) \<and> push_failed rt s1 s2 (e_id x)
            \<and> push_failed rt s2 s3 (e_id x)
            \<and> syncNow rt s3 = (res, s4) \<and> fst (rt_online rt (world s3)) \<and> has_url s3
            \<and> sent s4 = sent s3 @ calls
            \<and> (\<forall>q r. Posted q r Threw \<in> set calls \<longrightarrow> e_id x < q)
            \<longrightarrow> e_id x \<notin> e_id ` set (queue s4)
              \<and> (\<forall>r outcome. Posted (e_id x) r outcome \<notin> set calls))
       \<and> MAX_RETRIES = 3"
proof (intro conjI allI impI)
  fix st :: "'w state" and res st' calls x
  assume h: "syncNow rt st = (res, st') \<and> fst (rt_online rt (world st)) \<and> has_url st
            \<and> distinct (map e_id (queue st)) \<and> sent st' = sent st @ calls
            \<and> x \<in> set (queue st) \<and> MAX_RETRIES \<le> e_retries x
            \<and> (\<forall>q r. Posted q r Threw \<in> set calls \<longrightarrow> e_id x < q)"
  then have ex: "e_id x \<notin> e_id ` set (queue st') \<and> (\<forall>r outcome. Posted (e_id x) r outcome \<notin> set calls)
         \<and> 0 < errors res"
    using syncNow_exhausted [of rt st res st' calls x] by blast
  from ex show "e_id x \<notin> e_id ` set (queue st')" by blast
  from ex show "0 < errors res" by blast
  {
    fix r outcome
    from ex show "Posted (e_id x) r outcome \<notin> set calls" by blast
  }
  {
    fix items p e and s :: "'w state"
    from h have "MAX_RETRIES \<le> e_retries x" by blast
    then show "push_loop rt (x # items) p e s
                = push_loop rt items p (e + 1) (removeFromQueue (e_id x) s)"
      by (rule push_loop_exhausted_step)
  }
next
  fix s0 :: "'w state" and s1 s2 s3 s4 res calls x
  assume h: "distinct (map e_id (queue s0)) \<and> x \<in> set (queue s0)
            \<and> (\<forall>y \<in> set (queue s0). e_sheet y \<noteq> ''sync_queue'')
            \<and> push_failed rt s0 s1 (e_id x) \<and> push_failed rt s1 s2 (e_id x)
            \<and> push_failed rt s2 s3 (e_id x)
            \<and> syncNow rt s3 = (res, s4) \<and> fst (rt_online rt (world s3)) \<and> has_url s3
            \<and> sent s4 = sent s3 @ calls
            \<and> (\<forall>q r. Posted q r Threw \<in> set calls \<longrightarrow> e_id x < q)"
  define x1 where "x1 = x\<lparr>e_retries := e_retries x + 1\<rparr>"
  define x2 where "x2 = x1\<lparr>e_retries := e_retries x1 + 1\<rparr>"
  define x3 where "x3 = x2\<lparr>e_retries := e_retries x2 + 1\<rparr>"
  have ids: "e_id x1 = e_id x" "e_id x2 = e_id x" "e_id x3 = e_id x"
    by (simp_all add: x1_def x2_def x3_def)
  from h push_failed_next [of rt s0 s1 x]
  have a1: "distinct (map e_id (queue s1))" "x1 \<in> set (queue s1)"
    by (simp_all add: x1_def)
  from h a1 push_failed_next [of rt s1 s2 x1] ids
  have a2: "distinct (map e_id (queue s2))" "x2 \<in> set (queue s2)"
    by (simp_all add: x2_def)
  from h a2 push_failed_next [of rt s2 s3 x2] ids
  have a3: "distinct (map e_id (queue s3))" "x3 \<in> set (queue s3)"
    by (simp_all add: x3_def)
  have "MAX_RETRIES \<le> e_retries x3"
    by (simp add: x1_def x2_def x3_def MAX_RETRIES_def)
  with h a3 ids syncNow_exhausted [of rt s3 res s4 calls x3]
  have ex: "e_id x \<notin> e_id ` set (queue s4) \<and> (\<forall>r outcome. Posted (e_id x) r outcome \<notin> set calls)"
    by simp
  from ex show "e_id x \<notin> e_id ` set (queue s4)" by blast
  {
    fix r outcome
    from ex show "Posted (e_id x) r outcome \<notin> set calls" by blast
  }
next
  show "MAX_RETRIES = 3" by (simp add: MAX_RETRIES_def)
qed


section \<open>Example cycles\<close>

lemmas ex_defs = ex_rt_def ex_water_def ex_state_def ex_water_req_def ex_reads_def syncNow_def has_url_def
  MAX_RETRIES_def pushToSheets_def
      push_request_def incrementRetries_def DATE_INDEXED_STORES_def pullFromSheets_def truthy_def
      objectToRowArray_def COLUMNS_def cell_of_def getf_def removeFromQueue_def after_success_def
      markSynced_def purgeDeleted_def open_store_def ALL_STORES_def store_get_def valid_key_def keyPath_def
      store_delete_def write_key_def stored_as_def next_keygen_def

lemma ex_cycle_fault:
  "syncNow (ex_rt ReadThrew) (ex_state [ex_water 1 0, ex_water 2 0] [] [])
   = (\<lparr>pushed = 0, pulled = 0, errors = 1\<rparr>,
      ex_state [ex_water 1 1, ex_water 2 0] (Posted 1 ex_water_req Threw # ex_reads) [])"
  by (simp add: ex_defs)

lemma ex_cycle_accept:
  "syncNow (ex_rt ReadThrew) (ex_state [ex_water 2 0, ex_water 1 0] [] [Returned True, Returned True])
   = (\<lparr>pushed = 2, pulled = 0, errors = 0\<rparr>,
      ex_state [] (Posted 1 ex_water_req (Returned True) # Posted 2 ex_water_req (Returned True) # ex_reads) [])"
  by (simp add: ex_defs)

lemma ex_cycle_reject:
  "syncNow (ex_rt ReadThrew) (ex_state [ex_water 1 0, ex_water 2 0] [] [Returned False, Returned True])
   = (\<lparr>pushed = 1, pulled = 0, errors = 1\<rparr>,
      ex_state [ex_water 1 1] (Posted 1 ex_water_req (Returned False) # Posted 2 ex_water_req (Returned True) # ex_reads) [])"
  by (simp add: ex_defs)

lemma ex_cycle_exhausted:
  "syncNow (ex_rt ReadThrew) (ex_state [ex_water 1 3, ex_water 2 0] [] [Returned True])
   = (\<lparr>pushed = 1, pulled = 0, errors = 1\<rparr>,
      ex_state [] (Posted 2 ex_water_req (Returned True) # ex_reads) [])"
  by (simp add: ex_defs)

lemma ex_cycle_single:
  "k < 3 \<Longrightarrow> syncNow (ex_rt ReadThrew) (ex_state [ex_water 1 k] snt [])
   = (\<lparr>pushed = 0, pulled = 0, errors = 1\<rparr>,
      ex_state [ex_water 1 (k + 1)] (snt @ Posted 1 ex_water_req Threw # ex_reads) [])"
  by (simp add: ex_defs)


lemma ex_cycle_drop:
  "syncNow (ex_rt ReadThrew) (ex_state [ex_water 1 3] snt [])
   = (\<lparr>pushed = 0, pulled = 0, errors = 1\<rparr>, ex_state [] (snt @ ex_reads) [])"
  by (simp add: ex_defs)

lemma ex_reads_fetched: "\<forall>c \<in> set ex_reads. \<not> is_posted c"
  by (simp add: ex_reads_def)

lemma ex_state_sel [simp]:
  "queue (ex_state q snt w) = q" "sent (ex_state q snt w) = snt" "world (ex_state q snt w) = w"
  "has_url (ex_state q snt w)"
  by (simp_all add: ex_state_def has_url_def)

lemma ex_water_sel [simp]: "e_id (ex_water n k) = n" "e_retries (ex_water n k) = k"
  "e_sheet (ex_water n k) = ''water''"
  by (simp_all add: ex_water_def)

lemma ex_rt_online [simp]: "rt_online (ex_rt rd) w = (True, w)"
  by (simp add: ex_rt_def)

theorem halt_on_network_fault_witness:
  "syncNow (ex_rt ReadThrew) (ex_state [ex_water 1 0, ex_water 2 0] [] [])
     = (\<lparr>pushed = 0, pulled = 0, errors = 1\<rparr>,
        ex_state [ex_water 1 1, ex_water 2 0] (Posted 1 ex_water_req Threw # ex_reads) [])
   \<and> distinct (map e_id [ex_water 1 0, ex_water 2 0])
   \<and> (\<exists>x before reads.
         x \<in> set [ex_water 1 0, ex_water 2 0] \<and> e_id x = 1
       \<and> x\<lparr>e_retries := e_retries x + 1\<rparr> \<in> set [ex_water 1 1, ex_water 2 0]
       \<and> ex_water 2 0 \<in> set [ex_water 1 1, ex_water 2 0]
       \<and> Posted 1 ex_water_req Threw # ex_reads = before @ Posted 1 ex_water_req Threw # reads
       \<and> list_all (\<lambda>c. \<exists>r. c = Fetched r) reads)"
proof -
  let ?st = "ex_state [ex_water 1 0, ex_water 2 0] [] []"
  let ?st' = "ex_state [ex_water 1 1, ex_water 2 0] (Posted 1 ex_water_req Threw # ex_reads) []"
  have c: "syncNow (ex_rt ReadThrew) ?st = (\<lparr>pushed = 0, pulled = 0, errors = 1\<rparr>, ?st')"
    by (rule ex_cycle_fault)
  have d: "distinct (map e_id (queue ?st))" by simp
  have s: "sent ?st' = sent ?st @ (Posted 1 ex_water_req Threw # ex_reads)" by simp
  have f: "Posted 1 ex_water_req Threw \<in> set (Posted 1 ex_water_req Threw # ex_reads)" by simp
  have n: "\<forall>y \<in> set (queue ?st). e_sheet y \<noteq> ''sync_queue''" by simp
  from halt_on_network_fault [OF c d s f n] obtain x before reads where
    "x \<in> set (queue ?st)" "e_id x = 1"
    "x\<lparr>e_retries := e_retries x + 1\<rparr> \<in> set (queue ?st')"
    "\<forall>y \<in> set (queue ?st). 1 < e_id y \<longrightarrow> y \<in> set (queue ?st')"
    "Posted 1 ex_water_req Threw # ex_reads = before @ Posted 1 ex_water_req Threw # reads"
    "\<forall>c \<in> set reads. \<exists>r. c = Fetched r"
    by blast
  then have "x \<in> set [ex_water 1 0, ex_water 2 0] \<and> e_id x = 1
       \<and> x\<lparr>e_retries := e_retries x + 1\<rparr> \<in> set [ex_water 1 1, ex_water 2 0]
       \<and> ex_water 2 0 \<in> set [ex_water 1 1, ex_water 2 0]
       \<and> Posted 1 ex_water_req Threw # ex_reads = before @ Posted 1 ex_water_req Threw # reads
       \<and> list_all (\<lambda>c. \<exists>r. c = Fetched r) reads"
    by (simp add: list_all_iff)
  with c d show ?thesis unfolding ex_state_sel by blast
qed

theorem fifo_push_order_witness:
  "syncNow (ex_rt ReadThrew) (ex_state [ex_water 2 0, ex_water 1 0] [] [Returned True, Returned True])
     = (\<lparr>pushed = 2, pulled = 0, errors = 0\<rparr>,
        ex_state [] (Posted 1 ex_water_req (Returned True) # Posted 2 ex_water_req (Returned True) # ex_reads) [])
   \<and> (\<exists>calls. Posted 1 ex_water_req (Returned True) # Posted 2 ex_water_req (Returned True) # ex_reads = calls
        \<and> calls ! 0 = Posted 1 ex_water_req (Returned True)
        \<and> calls ! 1 = Posted 2 ex_water_req (Returned True)
        \<and> (0 :: nat) < 1
        \<and> 1 \<in> e_id ` set [ex_water 2 0, ex_water 1 0])"
proof -
  let ?st = "ex_state [ex_water 2 0, ex_water 1 0] [] [Returned True, Returned True]"
  let ?calls = "Posted 1 ex_water_req (Returned True) # Posted 2 ex_water_req (Returned True) # ex_reads"
  let ?st' = "ex_state [] ?calls []"
  have c: "syncNow (ex_rt ReadThrew) ?st = (\<lparr>pushed = 2, pulled = 0, errors = 0\<rparr>, ?st')"
    by (rule ex_cycle_accept)
  from fifo_push_order [OF c] obtain calls where
    k: "sent ?st' = sent ?st @ calls"
    and ord: "\<forall>i j a b ra rb oa ob.
                i < length calls \<and> j < length calls
                \<and> calls ! i = Posted a ra oa \<and> calls ! j = Posted b rb ob \<and> a < b
                \<longrightarrow> i < j"
    and own: "\<forall>a ra oa. Posted a ra oa \<in> set calls \<longrightarrow> a \<in> e_id ` set (queue ?st)"
    by blast
  from k have calls: "calls = ?calls" by simp
  have "(0 :: nat) < 1"
    using ord [rule_format, of 0 1 1 ex_water_req "Returned True" 2 ex_water_req "Returned True"] calls
    by simp
  moreover have "1 \<in> e_id ` set [ex_water 2 0, ex_water 1 0]"
    using own [rule_format, of 1 ex_water_req "Returned True"] calls by simp
  ultimately show ?thesis using c by simp
qed

theorem rejection_keeps_entry_and_continues_witness:
  "syncNow (ex_rt ReadThrew) (ex_state [ex_water 1 0, ex_water 2 0] [] [Returned False, Returned True])
     = (\<lparr>pushed = 1, pulled = 0, errors = 1\<rparr>,
        ex_state [ex_water 1 1]
          (Posted 1 ex_water_req (Returned False) # Posted 2 ex_water_req (Returned True) # ex_reads) [])
   \<and> distinct (map e_id [ex_water 1 0, ex_water 2 0])
   \<and> (\<exists>x. x \<in> set [ex_water 1 0, ex_water 2 0] \<and> e_id x = 1
          \<and> x\<lparr>e_retries := e_retries x + 1\<rparr> \<in> set [ex_water 1 1])
   \<and> (\<exists>outcome. Posted 2 ex_water_req outcome
          \<in> set (Posted 1 ex_water_req (Returned False) # Posted 2 ex_water_req (Returned True) # ex_reads))"
proof -
  let ?st = "ex_state [ex_water 1 0, ex_water 2 0] [] [Returned False, Returned True]"
  let ?calls = "Posted 1 ex_water_req (Returned False) # Posted 2 ex_water_req (Returned True) # ex_reads"
  let ?st' = "ex_state [ex_water 1 1] ?calls []"
  have c: "syncNow (ex_rt ReadThrew) ?st = (\<lparr>pushed = 1, pulled = 0, errors = 1\<rparr>, ?st')"
    by (rule ex_cycle_reject)
  have d: "distinct (map e_id (queue ?st))" by simp
  have s: "sent ?st' = sent ?st @ ?calls" by simp
  have f: "Posted 1 ex_water_req (Returned False) \<in> set ?calls" by simp
  have n: "\<forall>y \<in> set (queue ?st). e_sheet y \<noteq> ''sync_queue''" by simp
  from rejection_keeps_entry_and_continues [OF c d s f n] obtain x where
    x: "x \<in> set (queue ?st)" "e_id x = 1" "x\<lparr>e_retries := e_retries x + 1\<rparr> \<in> set (queue ?st')"
    and att: "\<forall>y \<in> set (queue ?st). \<forall>r.
               e_retries y < MAX_RETRIES \<and> push_request y = Some r
               \<and> (\<forall>q' r'. Posted q' r' Threw \<in> set ?calls \<longrightarrow> e_id y \<le> q')
               \<longrightarrow> (\<exists>outcome. Posted (e_id y) r outcome \<in> set ?calls)"
    by blast
  from x have a: "\<exists>x. x \<in> set [ex_water 1 0, ex_water 2 0] \<and> e_id x = 1
          \<and> x\<lparr>e_retries := e_retries x + 1\<rparr> \<in> set [ex_water 1 1]"
    unfolding ex_state_sel by blast
  have nothrow: "\<forall>q' r'. Posted q' r' Threw \<in> set ?calls \<longrightarrow> e_id (ex_water 2 0) \<le> q'"
    using ex_reads_fetched by auto
  have pr: "push_request (ex_water 2 0) = Some ex_water_req"
    by (simp add: ex_defs)
  from att [rule_format, of "ex_water 2 0" ex_water_req] nothrow pr
  have b: "\<exists>outcome. Posted 2 ex_water_req outcome \<in> set ?calls"
    by (simp add: MAX_RETRIES_def)
  from c d a b show ?thesis unfolding ex_state_sel by blast
qed

theorem retry_exhaustion_witness:
  "syncNow (ex_rt ReadThrew) (ex_state [ex_water 1 3, ex_water 2 0] [] [Returned True])
     = (\<lparr>pushed = 1, pulled = 0, errors = 1\<rparr>,
        ex_state [] (Posted 2 ex_water_req (Returned True) # ex_reads) [])
   \<and> 1 \<notin> e_id ` set (queue (ex_state [] (Posted 2 ex_water_req (Returned True) # ex_reads) []))
   \<and> push_failed (ex_rt ReadThrew) (ex_state [ex_water 1 0] [] [])
        (ex_state [ex_water 1 1] (Posted 1 ex_water_req Threw # ex_reads) []) 1
   \<and> 1 \<notin> e_id ` set (queue (snd (syncNow (ex_rt ReadThrew)
        (ex_state [ex_water 1 3]
           ((Posted 1 ex_water_req Threw # ex_reads) @ (Posted 1 ex_water_req Threw # ex_reads)
             @ (Posted 1 ex_water_req Threw # ex_reads)) []))))"
proof -
  let ?R = "ex_rt ReadThrew"
  let ?k = "Posted 1 ex_water_req Threw # ex_reads"
  let ?a = "ex_state [ex_water 1 3, ex_water 2 0] [] [Returned True]"
  let ?ac = "Posted 2 ex_water_req (Returned True) # ex_reads"
  let ?a' = "ex_state [] ?ac []"
  let ?s0 = "ex_state [ex_water 1 0] [] []"
  let ?s1 = "ex_state [ex_water 1 1] ?k []"
  let ?s2 = "ex_state [ex_water 1 2] (?k @ ?k) []"
  let ?s3 = "ex_state [ex_water 1 3] (?k @ ?k @ ?k) []"
  let ?s4 = "ex_state [] ((?k @ ?k @ ?k) @ ex_reads) []"
  note T = retry_exhaustion [of ?R]
  have ca: "syncNow ?R ?a = (\<lparr>pushed = 1, pulled = 0, errors = 1\<rparr>, ?a')"
    by (rule ex_cycle_exhausted)
  have nothrow: "\<forall>q r. Posted q r Threw \<in> set ?ac \<longrightarrow> e_id (ex_water 1 3) < q"
    using ex_reads_fetched by auto
  have A: "e_id (ex_water 1 3) \<notin> e_id ` set (queue ?a')"
    using T [THEN conjunct1, rule_format, of ?a _ ?a' ?ac "ex_water 1 3"] ca nothrow
    by (simp add: MAX_RETRIES_def)
  have c1: "syncNow ?R ?s0 = (\<lparr>pushed = 0, pulled = 0, errors = 1\<rparr>, ?s1)"
    using ex_cycle_single [of 0 "[]"] by simp
  have c2: "syncNow ?R ?s1 = (\<lparr>pushed = 0, pulled = 0, errors = 1\<rparr>, ?s2)"
    using ex_cycle_single [of 1 ?k] by (simp add: numeral_2_eq_2)
  have c3: "syncNow ?R ?s2 = (\<lparr>pushed = 0, pulled = 0, errors = 1\<rparr>, ?s3)"
    using ex_cycle_single [of 2 "?k @ ?k"] by (simp add: numeral_3_eq_3 numeral_2_eq_2)
  have c4: "syncNow ?R ?s3 = (\<lparr>pushed = 0, pulled = 0, errors = 1\<rparr>, ?s4)"
    by (rule ex_cycle_drop)
  have f1: "push_failed ?R ?s0 ?s1 1"
    unfolding push_failed_def using c1 by (intro exI [of _ ?k] exI conjI) auto
  have f2: "push_failed ?R ?s1 ?s2 1"
    unfolding push_failed_def using c2 by (intro exI [of _ ?k] exI conjI) auto
  have f3: "push_failed ?R ?s2 ?s3 1"
    unfolding push_failed_def using c3 by (intro exI [of _ ?k] exI conjI) auto
  have reach: "\<forall>q r. Posted q r Threw \<in> set ex_reads \<longrightarrow> e_id (ex_water 1 0) < q"
    using ex_reads_fetched by auto
  have B: "e_id (ex_water 1 0) \<notin> e_id ` set (queue ?s4)"
    using T [THEN conjunct2, THEN conjunct1, rule_format, of ?s0 "ex_water 1 0" ?s1 ?s2 ?s3 _ ?s4 ex_reads]
      f1 f2 f3 c4 reach
    by simp
  from ca A f1 B c4 show ?thesis by simp
qed


section \<open>Object store lemmas\<close>

lemma find_insort_key_new:
  assumes "find P xs = None" and "P x"
  shows "find P (insort_key f x xs) = Some x"
  using assms by (induction xs) (auto split: if_splits)

lemma find_map_replace:
  assumes "list_ex P xs" and "P y"
  shows "find P (map (\<lambda>x. if P x then y else x) xs) = Some y"
  using assms by (induction xs) auto

lemma find_None_list_ex: "find P xs = None \<longleftrightarrow> \<not> list_ex P xs"
  by (induction xs) auto

lemma find_Some_holds: "find P xs = Some x \<Longrightarrow> P x \<and> x \<in> set xs"
  by (induction xs) (auto split: if_splits)

lemma getf_upd [simp]: "getf (r(a \<mapsto> v)) b = (if b = a then v else getf r b)"
  by (simp add: getf_def)

lemma store_write_key:
  assumes "store_write ovw kp ai r t = Inr (k, t')"
  shows "k = write_key kp r t" and "valid_key k" and "getf (stored_as kp k r) kp = k"
proof -
  from assms have ok: "\<not> (getf r kp = JUndef \<and> \<not> ai)" "\<not> (getf r kp \<noteq> JUndef \<and> \<not> valid_key (getf r kp))"
    by (auto simp: store_write_def split: if_splits)
  with assms show k: "k = write_key kp r t"
    by (simp add: store_write_def Let_def split: if_splits)
  from ok show "valid_key k" unfolding k write_key_def by (auto simp: valid_key_def)
  then have "k \<noteq> JUndef" by (auto simp: valid_key_def)
  then show "getf (stored_as kp k r) kp = k"
    unfolding k by (auto simp: stored_as_def write_key_def)
qed

lemma store_write_rows:
  assumes "store_write ovw kp ai r t = Inr (k, t')"
  shows "t_rows t' = (if list_ex (\<lambda>x. getf x kp = k) (t_rows t)
                      then map (\<lambda>x. if getf x kp = k then stored_as kp k r else x) (t_rows t)
                      else insort_key (\<lambda>x. key_enc (getf x kp)) (stored_as kp k r) (t_rows t))"
proof -
  note k = store_write_key(1) [OF assms]
  from assms have ok: "\<not> (getf r kp = JUndef \<and> \<not> ai)" "\<not> (getf r kp \<noteq> JUndef \<and> \<not> valid_key (getf r kp))"
    by (auto simp: store_write_def split: if_splits)
  with assms show ?thesis
    unfolding k by (auto simp: store_write_def Let_def split: if_splits)
qed

lemma store_write_result:
  assumes "store_write ovw kp ai r t = Inr (k, t')"
  shows "store_get kp k t' = Inr (Some (stored_as kp k r))"
    and "stored_as kp k r \<in> set (t_rows t')"
    and "\<forall>x \<in> set (t_rows t'). getf x kp = k \<longrightarrow> x = stored_as kp k r"
    and "\<forall>x \<in> set (t_rows t). getf x kp \<noteq> k \<longrightarrow> x \<in> set (t_rows t')"
proof -
  note key = store_write_key [OF assms]
  note rows = store_write_rows [OF assms]
  let ?P = "\<lambda>x. getf x kp = k"
  have f: "find ?P (t_rows t') = Some (stored_as kp k r)"
  proof (cases "list_ex ?P (t_rows t)")
    case True
    with rows find_map_replace [of ?P "t_rows t" "stored_as kp k r"] key(3) show ?thesis by simp
  next
    case False
    then have "find ?P (t_rows t) = None" by (simp add: find_None_list_ex)
    from find_insort_key_new [OF this, of "stored_as kp k r"] key(3) rows False show ?thesis by simp
  qed
  with key(2) show "store_get kp k t' = Inr (Some (stored_as kp k r))"
    by (simp add: store_get_def)
  from f show "stored_as kp k r \<in> set (t_rows t')" by (simp add: find_Some_holds)
  show "\<forall>x \<in> set (t_rows t'). getf x kp = k \<longrightarrow> x = stored_as kp k r"
  proof (cases "list_ex ?P (t_rows t)")
    case True
    with rows show ?thesis by auto
  next
    case False
    then have "\<forall>x \<in> set (t_rows t). getf x kp \<noteq> k" by (auto simp: list_ex_iff)
    with rows False show ?thesis by (auto simp: set_insort_key)
  qed
  show "\<forall>x \<in> set (t_rows t). getf x kp \<noteq> k \<longrightarrow> x \<in> set (t_rows t')"
  proof (cases "list_ex ?P (t_rows t)")
    case True
    with rows show ?thesis by (auto simp: image_iff)
  next
    case False
    with rows show ?thesis by (auto simp: set_insort_key)
  qed
qed


lemma store_write_put_existing:
  assumes "valid_key (getf r kp)" and "list_ex (\<lambda>x. getf x kp = getf r kp) (t_rows t)"
  shows "store_write True kp ai r t
         = Inr (getf r kp, \<lparr>t_rows = map (\<lambda>x. if getf x kp = getf r kp then r else x) (t_rows t),
                            t_keygen = next_keygen kp ai r t\<rparr>)"
proof -
  from assms(1) have "getf r kp \<noteq> JUndef" by (auto simp: valid_key_def)
  with assms show ?thesis
    by (simp add: store_write_def write_key_def stored_as_def Let_def)
qed

lemma store_get_found:
  assumes "store_get kp k t = Inr (Some r)"
  shows "valid_key k" and "getf r kp = k" and "r \<in> set (t_rows t)"
    and "list_ex (\<lambda>x. getf x kp = k) (t_rows t)"
proof -
  from assms show v: "valid_key k" by (auto simp: store_get_def split: if_splits)
  with assms have "find (\<lambda>x. getf x kp = k) (t_rows t) = Some r" by (simp add: store_get_def)
  from find_Some_holds [OF this] show "getf r kp = k" and "r \<in> set (t_rows t)" by simp_all
  then show "list_ex (\<lambda>x. getf x kp = k) (t_rows t)" by (auto simp: list_ex_iff)
qed

section \<open>Soft delete and purge\<close>

text \<open>What \<open>get\<close> returns are live records of the table.\<close>

lemma get_results:
  assumes "get sheet opts st = Inr rs" and "r \<in> set rs"
  shows "r \<in> set (t_rows (tables st sheet)) \<and> \<not> truthy (getf r ''_deleted'')"
  using assms
  by (auto simp: get_def Let_def index_getAll_def
           split: sum.splits if_splits option.splits dest: in_set_takeD)

lemma purge_key: "(if sheet = ''profile'' then getf dat ''key'' else getf dat ''id'') = getf dat (keyPath sheet)"
  by (simp add: keyPath_def)

lemma purgeDeleted_removes:
  assumes "open_store sheet = Inr ()" and "valid_key (getf dat (keyPath sheet))"
  shows "tables (purgeDeleted sheet dat s) sheet
         = (tables s sheet)\<lparr>t_rows := filter (\<lambda>r. getf r (keyPath sheet) \<noteq> getf dat (keyPath sheet))
                                       (t_rows (tables s sheet))\<rparr>"
proof -
  from assms(2) have "getf dat (keyPath sheet) \<noteq> JUndef" by (auto simp: valid_key_def)
  with assms show ?thesis
    by (simp add: purgeDeleted_def purge_key store_delete_def)
qed

lemma enqueue_frame [simp]:
  "tables (enqueue rt sheet action dat ri st) = tables st"
  "sent (enqueue rt sheet action dat ri st) = sent st"
  by (simp_all add: enqueue_def Let_def split: prod.splits)

lemma enqueue_queue:
  "queue (enqueue rt sheet action dat ri st)
   = insort_key e_id \<lparr>e_id = queue_gen st, e_sheet = sheet, e_action = action, e_data = dat,
                       e_rowIndex = js_or ri JNull, e_timestamp = fst (rt_now rt (world st)),
                       e_retries = 0\<rparr> (queue st)"
  by (simp add: enqueue_def Let_def split: prod.splits)


lemma keyPath_cases: "keyPath sheet = ''id'' \<or> keyPath sheet = ''key''"
  by (simp add: keyPath_def)

lemma after_success_delete_purged:
  assumes "open_store (e_sheet item) = Inr ()" and "e_action item = ''delete''"
    and "valid_key (getf (e_data item) (keyPath (e_sheet item)))"
    and "r \<in> set (t_rows (tables (after_success item s) (e_sheet item)))"
  shows "getf r (keyPath (e_sheet item)) \<noteq> getf (e_data item) (keyPath (e_sheet item))"
proof -
  let ?s2 = "removeFromQueue (e_id item) (markSynced (e_sheet item) (e_data item) s)"
  have "after_success item s = purgeDeleted (e_sheet item) (e_data item) ?s2"
    using assms(2) by (simp add: after_success_def Let_def)
  with purgeDeleted_removes [OF assms(1,3), of ?s2] assms(4) show ?thesis by simp
qed

lemma push_loop_accepted_step:
  assumes "e_retries item < MAX_RETRIES"
    and "push_request item = Some req"
    and "rt_post rt req (world st) = (Returned True, w)"
  shows "push_loop rt (item # items) p e st
         = push_loop rt items (p + 1) e
             (after_success item
                (st\<lparr>sent := sent st @ [Posted (e_id item) req (Returned True)], world := w\<rparr>))"
  using assms by (simp add: pushToSheets_def)

text \<open>
  What a soft delete establishes on the state it leaves.
  \<open>delete(sheet, ident)\<close> on an existing record returns \<open>true\<close>; the
  record stored under the key is the old one with \<open>_deleted = true\<close>,
  \<open>_synced = false\<close> and \<open>_modified\<close> re-stamped; it is still a row of the
  table; no \<open>get\<close> on the resulting state, whatever its options, returns a
  record with that key, and in no state does \<open>get\<close> return a record whose
  \<open>_deleted\<close> is set; one \<open>delete\<close> entry carrying the record is queued
  (retries 0); once that entry is pushed with success, in whatever state, no
  row of the table has the key any more, and the push loop does so when the
  gateway accepts the entry's request.
\<close>

theorem soft_delete_then_purge:
  fixes rt :: "'w runtime"
  assumes "open_store sheet = Inr ()"
    and "store_get (keyPath sheet) ident (tables st sheet) = Inr (Some existing)"
    and "rt_now rt (world st) = (now, w)"
  shows "\<exists>st' item deleted ri.
           delete rt sheet ident st = (Inr True, st')
         \<and> deleted = existing ++ [''_deleted'' \<mapsto> JBool True, ''_synced'' \<mapsto> JBool False,
                                   ''_modified'' \<mapsto> JNum now]
         \<and> store_get (keyPath sheet) ident (tables st' sheet) = Inr (Some deleted)
         \<and> deleted \<in> set (t_rows (tables st' sheet))
         \<and> (\<forall>opts rs. get sheet opts st' = Inr rs \<longrightarrow> (\<forall>r \<in> set rs. getf r (keyPath sheet) \<noteq> ident))
         \<and> (\<forall>(s :: 'w state) opts rs. get sheet opts s = Inr rs \<longrightarrow>
                (\<forall>r \<in> set rs. \<not> truthy (getf r ''_deleted'')))
         \<and> queue st' = insort_key e_id item (queue st)
         \<and> e_sheet item = sheet \<and> e_action item = ''delete'' \<and> e_data item = deleted
         \<and> e_retries item = 0 \<and> push_request item = Some (ReqDelete sheet ri)
         \<and> (\<forall>(s :: 'w state). \<forall>r \<in> set (t_rows (tables (after_success item s) sheet)).
                getf r (keyPath sheet) \<noteq> ident)
         \<and> (\<forall>(s :: 'w state) items p e w'.
                rt_post rt (ReqDelete sheet ri) (world s) = (Returned True, w') \<longrightarrow>
                push_loop rt (item # items) p e s
                = push_loop rt items (p + 1) e
                    (after_success item
                       (s\<lparr>sent := sent s @ [Posted (e_id item) (ReqDelete sheet ri) (Returned True)],
                          world := w'\<rparr>)))"
proof -
  let ?kp = "keyPath sheet"
  define deleted where "deleted = existing ++ [''_deleted'' \<mapsto> JBool True, ''_synced'' \<mapsto> JBool False,
                                   ''_modified'' \<mapsto> JNum now]"
  define st1 where "st1 = st\<lparr>world := w\<rparr>"
  define t' where "t' = \<lparr>t_rows = map (\<lambda>x. if getf x ?kp = ident then deleted else x) (t_rows (tables st sheet)),
                         t_keygen = next_keygen ?kp (autoIncrement sheet) deleted (tables st sheet)\<rparr>"
  define st2 where "st2 = st1\<lparr>tables := (tables st1)(sheet := t')\<rparr>"
  define item where "item = \<lparr>e_id = queue_gen st2, e_sheet = sheet, e_action = ''delete'', e_data = deleted,
                       e_rowIndex = js_or (js_or (getf deleted ''_rowIndex'') JNull) JNull,
                       e_timestamp = fst (rt_now rt (world st2)), e_retries = 0\<rparr>"
  define st' where "st' = enqueue rt sheet ''delete'' deleted (js_or (getf deleted ''_rowIndex'') JNull) st2"
  note found = store_get_found [OF assms(2)]
  have dk: "getf deleted ?kp = ident"
    using keyPath_cases [of sheet] found(2) by (auto simp: deleted_def getf_def map_add_def)
  have dd: "getf deleted ''_deleted'' = JBool True"
    by (simp add: deleted_def getf_def map_add_def)
  have w: "store_write True ?kp (autoIncrement sheet) deleted (tables st1 sheet) = Inr (ident, t')"
    using store_write_put_existing [of deleted ?kp "tables st sheet" "autoIncrement sheet"] found dk
    by (simp add: st1_def t'_def)
  have del: "delete rt sheet ident st = (Inr True, st')"
    using assms w
    by (simp add: delete_def Let_def st1_def deleted_def st'_def st2_def)
  have tab: "tables st' sheet = t'" by (simp add: st'_def st2_def)
  note res = store_write_result [OF w]
  have sa: "stored_as ?kp ident deleted = deleted"
    using dk found(1) by (auto simp: stored_as_def valid_key_def)
  have g: "store_get ?kp ident (tables st' sheet) = Inr (Some deleted)"
    using res(1) sa tab by simp
  have mem: "deleted \<in> set (t_rows (tables st' sheet))"
    using res(2) sa tab by simp
  have hidden: "\<forall>opts rs. get sheet opts st' = Inr rs \<longrightarrow> (\<forall>r \<in> set rs. getf r ?kp \<noteq> ident)"
  proof (intro allI impI ballI)
    fix opts rs r
    assume "get sheet opts st' = Inr rs" "r \<in> set rs"
    from get_results [OF this] have r: "r \<in> set (t_rows t')" "\<not> truthy (getf r ''_deleted'')"
      using tab by simp_all
    show "getf r ?kp \<noteq> ident"
    proof
      assume "getf r ?kp = ident"
      with res(3) r(1) sa have "r = deleted" by simp
      with r(2) dd show False by (simp add: truthy_def)
    qed
  qed
  have q: "queue st' = insort_key e_id item (queue st)"
    by (simp add: st'_def enqueue_queue item_def st2_def st1_def)
  have it: "e_sheet item = sheet" "e_action item = ''delete''" "e_data item = deleted" "e_retries item = 0"
    by (simp_all add: item_def)
  have pr: "push_request item = Some (ReqDelete sheet (push_rowIndex item))"
    by (simp add: push_request_def it)
  have purged: "\<forall>(s :: 'w state). \<forall>r \<in> set (t_rows (tables (after_success item s) sheet)).
                getf r ?kp \<noteq> ident"
    using after_success_delete_purged [of item] assms(1) it dk found(1) by auto
  have step: "\<forall>(s :: 'w state) items p e w'.
                rt_post rt (ReqDelete sheet (push_rowIndex item)) (world s) = (Returned True, w') \<longrightarrow>
                push_loop rt (item # items) p e s
                = push_loop rt items (p + 1) e
                    (after_success item
                       (s\<lparr>sent := sent s @ [Posted (e_id item) (ReqDelete sheet (push_rowIndex item)) (Returned True)],
                          world := w'\<rparr>))"
  proof (intro allI impI)
    fix s :: "'w state" and items p e w'
    assume "rt_post rt (ReqDelete sheet (push_rowIndex item)) (world s) = (Returned True, w')"
    moreover have "e_retries item < MAX_RETRIES" by (simp add: it MAX_RETRIES_def)
    ultimately show "push_loop rt (item # items) p e s
                = push_loop rt items (p + 1) e
                    (after_success item
                       (s\<lparr>sent := sent s @ [Posted (e_id item) (ReqDelete sheet (push_rowIndex item)) (Returned True)],
                          world := w'\<rparr>))"
      using pr by (rule push_loop_accepted_step [rotated 2])
  qed
  have tomb: "\<forall>(s :: 'w state) opts rs. get sheet opts s = Inr rs \<longrightarrow>
                (\<forall>r \<in> set rs. \<not> truthy (getf r ''_deleted''))"
    using get_results by blast
  from del g mem hidden tomb q it pr purged step show ?thesis
    unfolding deleted_def [symmetric] by blast
qed


section \<open>Save followed by get\<close>

lemma open_store_date_indexed:
  assumes "sheet \<in> set DATE_INDEXED_STORES"
  shows "open_store sheet = Inr ()" and "keyPath sheet = ''id''" and "autoIncrement sheet"
  using assms
  by (auto simp: open_store_def DATE_INDEXED_STORES_def ALL_STORES_def keyPath_def autoIncrement_def)

lemma truthy_valid_key:
  assumes "truthy d" and "d \<noteq> JBool True"
  shows "valid_key d"
  using assms by (cases d) (auto simp: truthy_def valid_key_def)

text \<open>\<open>get(sheet, {date: d})\<close> on a date-indexed sheet lists every live record dated \<open>d\<close>.\<close>

lemma get_by_date_includes:
  assumes "sheet \<in> set DATE_INDEXED_STORES"
    and "d \<noteq> JBool True"
    and "r \<in> set (t_rows (tables st sheet))"
    and "getf r ''date'' = d" and "\<not> truthy (getf r ''_deleted'')"
  shows "\<exists>rs. get sheet \<lparr>opt_from = JUndef, opt_to = JUndef, opt_date = d, opt_limit = JUndef\<rparr> st = Inr rs
              \<and> r \<in> set rs"
proof (cases "truthy d")
  case True
  from True assms(2) have "valid_key d" by (rule truthy_valid_key)
  with True assms show ?thesis
    by (simp add: get_def open_store_date_indexed js_or_def index_getAll_def truthy_def)
next
  case False
  with assms show ?thesis
    by (simp add: get_def open_store_date_indexed js_or_def truthy_def)
qed

lemma stored_as_upd:
  assumes "k = write_key kp r t" and "valid_key k"
  shows "r(kp \<mapsto> k) = stored_as kp k r"
proof (cases "getf r kp = JUndef")
  case True
  then show ?thesis by (simp add: stored_as_def)
next
  case False
  with assms have "getf r kp = k" by (simp add: write_key_def)
  with False have "r kp = Some k" by (auto simp: getf_def split: option.splits)
  then have "r(kp \<mapsto> k) = r" by (rule map_upd_triv)
  with False show ?thesis by (simp add: stored_as_def)
qed

lemma save_then_get:
  fixes rt :: "'w runtime"
  assumes "sheet \<in> set DATE_INDEXED_STORES"
    and "save rt sheet row st = (Inr rec, st')"
    and "getf row ''date'' \<noteq> JBool True"
  shows "\<exists>rs item.
           get sheet \<lparr>opt_from = JUndef, opt_to = JUndef, opt_date = getf row ''date'', opt_limit = JUndef\<rparr> st'
             = Inr rs
         \<and> rec \<in> set rs
         \<and> (\<forall>k. k \<notin> {''_synced'', ''_modified'', ''_deleted'', ''id''} \<longrightarrow> rec k = row k)
         \<and> getf rec ''_synced'' = JBool False \<and> getf rec ''_deleted'' = JBool False
         \<and> getf rec ''id'' = write_key ''id'' row (tables st sheet)
         \<and> store_get ''id'' (getf rec ''id'') (tables st' sheet) = Inr (Some rec)
         \<and> queue st' = insort_key e_id item (queue st)
         \<and> e_sheet item = sheet \<and> e_action item = ''append'' \<and> e_data item = rec
         \<and> e_retries item = 0"
proof -
  note ds = open_store_date_indexed [OF assms(1)]
  obtain now w where nw: "rt_now rt (world st) = (now, w)" by (cases "rt_now rt (world st)")
  define st1 where "st1 = st\<lparr>world := w\<rparr>"
  define rec0 where "rec0 = row ++ [''_synced'' \<mapsto> JBool False, ''_modified'' \<mapsto> JNum now,
                                     ''_deleted'' \<mapsto> JBool False]"
  from assms(2) nw ds obtain k t' where
    w: "store_write False ''id'' True rec0 (tables st sheet) = Inr (k, t')"
    and rec: "rec = rec0(''id'' \<mapsto> k)"
    and st': "st' = enqueue rt sheet ''append'' rec JUndef (st1\<lparr>tables := (tables st1)(sheet := t')\<rparr>)"
    by (auto simp: save_def Let_def st1_def rec0_def split: sum.splits prod.splits)
  note key = store_write_key [OF w]
  note res = store_write_result [OF w]
  have rs: "rec = stored_as ''id'' k rec0" unfolding rec using key(1,2) by (rule stored_as_upd)
  have tab: "tables st' sheet = t'" by (simp add: st' st1_def)
  have id0: "getf rec0 ''id'' = getf row ''id''" by (simp add: rec0_def getf_def map_add_def)
  have kid: "getf rec ''id'' = k" by (simp add: rec)
  have kw: "k = write_key ''id'' row (tables st sheet)"
    using key(1) id0 by (simp add: write_key_def)
  have fields: "\<forall>k. k \<notin> {''_synced'', ''_modified'', ''_deleted'', ''id''} \<longrightarrow> rec k = row k"
    by (simp add: rec rec0_def map_add_def)
  have meta: "getf rec ''_synced'' = JBool False" "getf rec ''_deleted'' = JBool False"
    "getf rec ''date'' = getf row ''date''"
    by (simp_all add: rec rec0_def getf_def map_add_def)
  have mem: "rec \<in> set (t_rows (tables st' sheet))" using res(2) rs tab by simp
  have live: "\<not> truthy (getf rec ''_deleted'')" by (simp add: meta truthy_def)
  from get_by_date_includes [OF assms(1,3) mem meta(3) live] obtain rs where
    g: "get sheet \<lparr>opt_from = JUndef, opt_to = JUndef, opt_date = getf row ''date'', opt_limit = JUndef\<rparr> st'
             = Inr rs" "rec \<in> set rs"
    by blast
  have sg: "store_get ''id'' (getf rec ''id'') (tables st' sheet) = Inr (Some rec)"
    using res(1) rs tab kid by simp
  define item where "item = \<lparr>e_id = queue_gen st, e_sheet = sheet, e_action = ''append'', e_data = rec,
                       e_rowIndex = js_or JUndef JNull,
                       e_timestamp = fst (rt_now rt w), e_retries = 0\<rparr>"
  have q: "queue st' = insort_key e_id item (queue st)"
    by (simp add: st' enqueue_queue item_def st1_def)
  have it: "e_sheet item = sheet" "e_action item = ''append''" "e_data item = rec" "e_retries item = 0"
    by (simp_all add: item_def)
  from g fields meta(1,2) kid kw sg q it show ?thesis by blast
qed

lemma save_resolves:
  assumes "sheet \<in> set DATE_INDEXED_STORES"
    and "getf row ''id'' = JUndef"
    and "\<not> list_ex (\<lambda>x. getf x ''id'' = JNum (t_keygen (tables st sheet))) (t_rows (tables st sheet))"
  shows "\<exists>rec st'. save rt sheet row st = (Inr rec, st')"
proof -
  note ds = open_store_date_indexed [OF assms(1)]
  obtain now w where nw: "rt_now rt (world st) = (now, w)" by (cases "rt_now rt (world st)")
  define rec0 where "rec0 = row ++ [''_synced'' \<mapsto> JBool False, ''_modified'' \<mapsto> JNum now,
                                     ''_deleted'' \<mapsto> JBool False]"
  have id0: "getf rec0 ''id'' = JUndef" using assms(2) by (simp add: rec0_def getf_def map_add_def)
  with assms(3) have "\<exists>t'. store_write False ''id'' True rec0 (tables st sheet)
                       = Inr (JNum (t_keygen (tables st sheet)), t')"
    by (simp add: store_write_def write_key_def Let_def)
  then obtain t' where "store_write False ''id'' True rec0 (tables st sheet)
                       = Inr (JNum (t_keygen (tables st sheet)), t')" by blast
  with nw ds show ?thesis by (simp add: save_def Let_def rec0_def)
qed


section \<open>Valid keys are an invariant\<close>

lemma store_write_keys_valid:
  assumes "store_write ovw kp ai r t = Inr (k, t')" and "keys_valid kp t"
  shows "keys_valid kp t'"
proof -
  note key = store_write_key [OF assms(1)]
  note rows = store_write_rows [OF assms(1)]
  from key(2,3) have "valid_key (getf (stored_as kp k r) kp)" by simp
  with assms(2) show ?thesis
    unfolding keys_valid_def rows by (auto simp: list_all_iff set_insort_key)
qed

lemma store_delete_keys_valid:
  assumes "store_delete kp k t = Inr t'" and "keys_valid kp t"
  shows "keys_valid kp t'"
  using assms by (auto simp: store_delete_def keys_valid_def list_all_iff split: if_splits)

lemma stores_valid_upd:
  assumes "stores_valid st" and "keys_valid (keyPath sheet) t'"
  shows "stores_valid (st\<lparr>tables := (tables st)(sheet := t')\<rparr>)"
  using assms by (simp add: stores_valid_def)

lemma stores_valid_frame:
  assumes "tables st' = tables st" and "stores_valid st"
  shows "stores_valid st'"
  using assms by (simp add: stores_valid_def)

lemma markSynced_valid:
  assumes "stores_valid st"
  shows "stores_valid (markSynced sheet dat st)"
proof -
  have kv: "keys_valid (keyPath sheet) (tables st sheet)" using assms by (simp add: stores_valid_def)
  show ?thesis
    using assms store_write_keys_valid [OF _ kv]
    by (auto simp: markSynced_def Let_def intro!: stores_valid_upd
             split: sum.splits option.splits prod.splits)
qed

lemma purgeDeleted_valid:
  assumes "stores_valid st"
  shows "stores_valid (purgeDeleted sheet dat st)"
proof -
  have kv: "keys_valid (keyPath sheet) (tables st sheet)" using assms by (simp add: stores_valid_def)
  show ?thesis
    using assms store_delete_keys_valid [OF _ kv]
    by (auto simp: purgeDeleted_def Let_def intro!: stores_valid_upd
             split: sum.splits option.splits prod.splits)
qed

lemma after_success_valid:
  assumes "stores_valid st"
  shows "stores_valid (after_success item st)"
proof -
  have "stores_valid (removeFromQueue (e_id item) (markSynced (e_sheet item) (e_data item) st))"
    using markSynced_valid [OF assms] by (rule stores_valid_frame [rotated]) simp
  then show ?thesis by (simp add: after_success_def Let_def purgeDeleted_valid)
qed

lemma push_loop_valid:
  assumes "push_loop rt items p e st = (p', e', st')" and "stores_valid st"
  shows "stores_valid st'"
  using assms
proof (induction items arbitrary: p e st)
  case Nil
  then show ?case by simp
next
  case (Cons item items)
  show ?case
  proof (cases "e_retries item \<ge> MAX_RETRIES")
    case True
    with Cons.prems have lp: "push_loop rt items p (e + 1) (removeFromQueue (e_id item) st) = (p', e', st')"
      by simp
    have "stores_valid (removeFromQueue (e_id item) st)"
      using Cons.prems(2) by (rule stores_valid_frame [rotated]) simp
    from Cons.IH [OF lp this] show ?thesis .
  next
    case False
    obtain res st1 where ps: "pushToSheets rt item st = (res, st1)"
      by (cases "pushToSheets rt item st")
    have v1: "stores_valid st1"
      using Cons.prems(2) pushToSheets_frame(2) [OF ps] by (rule stores_valid_frame [rotated])
    have vi: "stores_valid (incrementRetries (e_id item) (e_retries item) st1)"
      using v1 by (rule stores_valid_frame [rotated]) simp
    show ?thesis
    proof (cases res)
      case Threw
      with Cons.prems False ps vi show ?thesis by simp
    next
      case (Returned ok)
      define st2 where "st2 = (if ok then after_success item st1
                               else incrementRetries (e_id item) (e_retries item) st1)"
      define p2 where "p2 = (if ok then p + 1 else p)"
      define e2 where "e2 = (if ok then e else e + 1)"
      from Cons.prems False ps Returned
      have lp: "push_loop rt items p2 e2 st2 = (p', e', st')"
        by (simp add: st2_def p2_def e2_def split: if_splits)
      have "stores_valid st2" using vi after_success_valid [OF v1] by (simp add: st2_def)
      from Cons.IH [OF lp this] show ?thesis .
    qed
  qed
qed

lemma merge_row_valid:
  assumes "merge_row rt sheet i rowArr st = (res, st')" and "stores_valid st"
  shows "stores_valid st'"
proof -
  have kv: "keys_valid (keyPath sheet) (tables st sheet)" using assms(2) by (simp add: stores_valid_def)
  have w: "stores_valid (s\<lparr>world := x\<rparr>)" if "stores_valid s" for s :: "'a state" and x
    using that by (simp add: stores_valid_def)
  show ?thesis
    using assms store_write_keys_valid [OF _ kv]
    by (auto simp: merge_row_def Let_def stores_valid_def
             split: sum.splits option.splits prod.splits if_splits)
qed


lemma merge_rows_valid:
  assumes "merge_rows rt sheet data_rows i merged st = (res, st')" and "stores_valid st"
  shows "stores_valid st'"
  using assms
proof (induction data_rows arbitrary: i merged st)
  case Nil
  then show ?case by simp
next
  case (Cons rowArr rest)
  obtain r st2 where m: "merge_row rt sheet i rowArr st = (r, st2)"
    by (cases "merge_row rt sheet i rowArr st")
  note v = merge_row_valid [OF m Cons.prems(2)]
  show ?case
  proof (cases r)
    case (Inl err)
    with Cons.prems m v show ?thesis by simp
  next
    case (Inr counted)
    with Cons.prems m
    have "merge_rows rt sheet rest (i + 1) (if counted then merged + 1 else merged) st2 = (res, st')"
      by simp
    from Cons.IH [OF this v] show ?thesis .
  qed
qed

lemma pullFromSheets_valid:
  assumes "pullFromSheets rt sheet lo hi st = (res, st')" and "stores_valid st"
  shows "stores_valid st'"
proof (cases "has_url st")
  case False
  with assms show ?thesis by (simp add: pullFromSheets_def)
next
  case True
  define req where "req = ReqRead sheet (if truthy lo then Some lo else None)
                                 (if truthy hi then Some hi else None)"
  obtain rr w where rd: "rt_read rt req (world st) = (rr, w)"
    by (cases "rt_read rt req (world st)")
  define st0 where "st0 = st\<lparr>sent := sent st @ [Fetched req], world := w\<rparr>"
  have v0: "stores_valid st0" using assms(2) by (simp add: st0_def stores_valid_def)
  have "(st' = st0) \<or> (\<exists>data_rows r. merge_rows rt sheet data_rows 0 0 st0 = (r, st'))"
    using assms(1) True rd
    by (auto simp: pullFromSheets_def Let_def req_def st0_def
             split: read_result.splits option.splits if_splits)
  with v0 merge_rows_valid show ?thesis by blast
qed

lemma pull_stores_valid:
  assumes "pull_stores rt today sheets n st = (n', st')" and "stores_valid st"
  shows "stores_valid st'"
  using assms
proof (induction sheets arbitrary: n st)
  case Nil
  then show ?case by simp
next
  case (Cons sheet rest)
  obtain r st2 where pl: "pullFromSheets rt sheet (JStr today) (JStr today) st = (r, st2)"
    by (cases "pullFromSheets rt sheet (JStr today) (JStr today) st")
  note v = pullFromSheets_valid [OF pl Cons.prems(2)]
  from Cons.prems pl have "\<exists>n2. pull_stores rt today rest n2 st2 = (n', st')"
    by (auto split: sum.splits)
  then obtain n2 where "pull_stores rt today rest n2 st2 = (n', st')" by blast
  from Cons.IH [OF this v] show ?case .
qed

text \<open>Every operation of the model keeps the records of every table under valid keys.\<close>

lemma syncNow_valid:
  assumes "syncNow rt st = (res, st')" and "stores_valid st"
  shows "stores_valid st'"
proof -
  obtain on w where on: "rt_online rt (world st) = (on, w)" by (cases "rt_online rt (world st)")
  define st0 where "st0 = st\<lparr>world := w\<rparr>"
  have v0: "stores_valid st0" using assms(2) by (simp add: st0_def stores_valid_def)
  show ?thesis
  proof (cases "\<not> on \<or> \<not> has_url st0")
    case True
    with assms on v0 show ?thesis by (auto simp: syncNow_def st0_def)
  next
    case False
    obtain p e st1 where pl: "push_loop rt (sort_key e_id (queue st0)) 0 0 st0 = (p, e, st1)"
      by (cases "push_loop rt (sort_key e_id (queue st0)) 0 0 st0") auto
    obtain today w2 where td: "rt_today rt (world st1) = (today, w2)"
      by (cases "rt_today rt (world st1)")
    obtain pl2 st2 where ps: "pull_stores rt today DATE_INDEXED_STORES 0 (st1\<lparr>world := w2\<rparr>) = (pl2, st2)"
      by (cases "pull_stores rt today DATE_INDEXED_STORES 0 (st1\<lparr>world := w2\<rparr>)")
    from assms(1) on False pl td ps have r: "st' = st2"
      by (auto simp: syncNow_def Let_def st0_def)
    have "stores_valid (st1\<lparr>world := w2\<rparr>)"
      using push_loop_valid [OF pl v0] by (simp add: stores_valid_def)
    from pull_stores_valid [OF ps this] r show ?thesis by simp
  qed
qed

lemma save_valid:
  assumes "save rt sheet row st = (res, st')" and "stores_valid st"
  shows "stores_valid st'"
proof -
  obtain now w where nw: "rt_now rt (world st) = (now, w)" by (cases "rt_now rt (world st)")
  have kv: "keys_valid (keyPath sheet) (tables st sheet)" using assms(2) by (simp add: stores_valid_def)
  show ?thesis
    using assms nw store_write_keys_valid [OF _ kv]
    by (auto simp: save_def Let_def stores_valid_def split: sum.splits prod.splits)
qed

lemma delete_valid:
  assumes "delete rt sheet ident st = (res, st')" and "stores_valid st"
  shows "stores_valid st'"
proof -
  obtain now w where nw: "rt_now rt (world st) = (now, w)" by (cases "rt_now rt (world st)")
  have kv: "keys_valid (keyPath sheet) (tables st sheet)" using assms(2) by (simp add: stores_valid_def)
  show ?thesis
    using assms nw store_write_keys_valid [OF _ kv]
    by (auto simp: delete_def Let_def stores_valid_def split: sum.splits prod.splits option.splits)
qed

section \<open>The queue stays well formed\<close>

text \<open>
  The assumptions made on the queue above (distinct ids, no entry naming the
  \<open>sync_queue\<close> store itself) follow from \<open>queue_ok\<close>, which holds of
  the empty queue and is kept by \<open>syncNow\<close>, \<open>save\<close> and \<open>delete\<close>.
\<close>

lemma queue_gen_queue [simp]:
  "queue_gen (removeFromQueue q st) = queue_gen st"
  "queue_gen (incrementRetries q n st) = queue_gen st"
  by (simp_all add: removeFromQueue_def incrementRetries_def)

lemma queue_gen_markSynced [simp]: "queue_gen (markSynced sheet dat st) = queue_gen st"
  by (simp add: markSynced_def Let_def split: sum.splits option.splits prod.splits)

lemma queue_gen_purgeDeleted [simp]: "queue_gen (purgeDeleted sheet dat st) = queue_gen st"
  by (simp add: purgeDeleted_def Let_def split: sum.splits option.splits prod.splits)

lemma queue_gen_after_success [simp]: "queue_gen (after_success item st) = queue_gen st"
  by (simp add: after_success_def Let_def)

lemma queue_ok_wf:
  assumes "queue_ok st"
  shows "distinct (map e_id (queue st))" and "\<forall>y \<in> set (queue st). e_sheet y \<noteq> ''sync_queue''"
  using assms by (simp_all add: queue_ok_def list_all_iff)

lemma queue_ok_empty:
  assumes "queue st = []"
  shows "queue_ok st"
  using assms by (simp add: queue_ok_def)

lemma queue_ok_frame:
  assumes "queue st' = queue st" and "queue_gen st' = queue_gen st" and "queue_ok st"
  shows "queue_ok st'"
  using assms by (simp add: queue_ok_def)

lemma queue_ok_remove:
  assumes "queue st' = filter P (queue st)" and "queue_gen st' = queue_gen st" and "queue_ok st"
  shows "queue_ok st'"
  using assms by (simp add: queue_ok_def list_all_iff distinct_map_filter)

lemma queue_ok_increment:
  assumes "queue_ok st"
  shows "queue_ok (incrementRetries q n st)"
proof -
  have "map e_id (queue (incrementRetries q n st)) = map e_id (queue st)"
    by (auto simp: comp_def)
  then have "distinct (map e_id (queue (incrementRetries q n st)))"
    using assms by (simp only: queue_ok_def)
  moreover have "list_all (\<lambda>x. e_id x < queue_gen st \<and> e_sheet x \<noteq> ''sync_queue'')
                   (queue (incrementRetries q n st))"
    using assms by (auto simp: queue_ok_def list_all_iff)
  ultimately show ?thesis by (simp add: queue_ok_def)
qed

lemma pushToSheets_queue_gen:
  assumes "pushToSheets rt item st = (res, st1)"
  shows "queue_gen st1 = queue_gen st"
  using assms by (auto elim!: pushToSheets_cases)

lemma push_loop_queue_ok:
  assumes "push_loop rt items p e st = (p', e', st')" and "queue_ok st"
  shows "queue_ok st'"
  using assms
proof (induction items arbitrary: p e st)
  case Nil
  then show ?case by simp
next
  case (Cons item items)
  show ?case
  proof (cases "e_retries item \<ge> MAX_RETRIES")
    case True
    with Cons.prems have lp: "push_loop rt items p (e + 1) (removeFromQueue (e_id item) st) = (p', e', st')"
      by simp
    have "queue_ok (removeFromQueue (e_id item) st)"
      using Cons.prems(2) by (rule queue_ok_remove [rotated 2]) simp_all
    from Cons.IH [OF lp this] show ?thesis .
  next
    case False
    obtain res st1 where ps: "pushToSheets rt item st = (res, st1)"
      by (cases "pushToSheets rt item st")
    have v1: "queue_ok st1"
      using pushToSheets_frame(1) [OF ps] pushToSheets_queue_gen [OF ps] Cons.prems(2)
      by (rule queue_ok_frame)
    note vi = queue_ok_increment [OF v1, of "e_id item" "e_retries item"]
    have va: "queue_ok (after_success item st1)"
      using v1 by (rule queue_ok_remove [rotated 2]) simp_all
    show ?thesis
    proof (cases res)
      case Threw
      with Cons.prems False ps vi show ?thesis by simp
    next
      case (Returned ok)
      define st2 where "st2 = (if ok then after_success item st1
                               else incrementRetries (e_id item) (e_retries item) st1)"
      define p2 where "p2 = (if ok then p + 1 else p)"
      define e2 where "e2 = (if ok then e else e + 1)"
      from Cons.prems False ps Returned
      have lp: "push_loop rt items p2 e2 st2 = (p', e', st')"
        by (simp add: st2_def p2_def e2_def split: if_splits)
      have "queue_ok st2" using vi va by (simp add: st2_def)
      from Cons.IH [OF lp this] show ?thesis .
    qed
  qed
qed

lemma merge_row_queue_gen:
  assumes "merge_row rt sheet i rowArr st = (res, st1)"
  shows "queue_gen st1 = queue_gen st"
  using assms
  by (auto simp: merge_row_def Let_def split: option.splits prod.splits sum.splits if_splits)

lemma merge_rows_queue_gen:
  assumes "merge_rows rt sheet data_rows i merged st = (res, st1)"
  shows "queue_gen st1 = queue_gen st"
  using assms
proof (induction data_rows arbitrary: i merged st)
  case Nil
  then show ?case by simp
next
  case (Cons rowArr rest)
  obtain r st2 where m: "merge_row rt sheet i rowArr st = (r, st2)"
    by (cases "merge_row rt sheet i rowArr st")
  note f = merge_row_queue_gen [OF m]
  show ?case
  proof (cases r)
    case (Inl err)
    with Cons.prems m f show ?thesis by simp
  next
    case (Inr counted)
    with Cons.prems m
    have "merge_rows rt sheet rest (i + 1) (if counted then merged + 1 else merged) st2 = (res, st1)"
      by simp
    from Cons.IH [OF this] f show ?thesis by simp
  qed
qed

lemma pullFromSheets_queue_gen:
  assumes "pullFromSheets rt sheet from to st = (res, st1)"
  shows "queue_gen st1 = queue_gen st"
proof (cases "has_url st")
  case False
  with assms show ?thesis by (simp add: pullFromSheets_def)
next
  case True
  define req where "req = ReqRead sheet (if truthy from then Some from else None)
                                 (if truthy to then Some to else None)"
  obtain rr w where rd: "rt_read rt req (world st) = (rr, w)"
    by (cases "rt_read rt req (world st)")
  define st0 where "st0 = st\<lparr>sent := sent st @ [Fetched req], world := w\<rparr>"
  have base: "queue_gen st0 = queue_gen st" by (simp add: st0_def)
  have "(st1 = st0) \<or> (\<exists>data_rows r. merge_rows rt sheet data_rows 0 0 st0 = (r, st1))"
    using assms True rd
    by (auto simp: pullFromSheets_def Let_def req_def st0_def
             split: read_result.splits option.splits if_splits)
  then have "queue_gen st1 = queue_gen st0"
    using merge_rows_queue_gen by blast
  with base show ?thesis by simp
qed

lemma pull_stores_queue_gen:
  assumes "pull_stores rt today sheets n st = (n', st1)"
  shows "queue_gen st1 = queue_gen st"
  using assms
proof (induction sheets arbitrary: n st)
  case Nil
  then show ?case by simp
next
  case (Cons sheet rest)
  obtain r st2 where pl: "pullFromSheets rt sheet (JStr today) (JStr today) st = (r, st2)"
    by (cases "pullFromSheets rt sheet (JStr today) (JStr today) st")
  from Cons.prems pl have "\<exists>n2. pull_stores rt today rest n2 st2 = (n', st1)"
    by (auto split: sum.splits)
  then obtain n2 where "pull_stores rt today rest n2 st2 = (n', st1)" by blast
  from Cons.IH [OF this] pullFromSheets_queue_gen [OF pl] show ?case by simp
qed

lemma syncNow_queue_ok:
  assumes "syncNow rt st = (res, st')" and "queue_ok st"
  shows "queue_ok st'"
proof -
  obtain on w where on: "rt_online rt (world st) = (on, w)" by (cases "rt_online rt (world st)")
  define st0 where "st0 = st\<lparr>world := w\<rparr>"
  have ok0: "queue_ok st0" using assms(2) by (simp add: queue_ok_def st0_def)
  show ?thesis
  proof (cases "\<not> on \<or> \<not> has_url st0")
    case True
    with assms on ok0 show ?thesis by (auto simp: syncNow_def st0_def)
  next
    case False
    obtain p e st1 where pl: "push_loop rt (sort_key e_id (queue st0)) 0 0 st0 = (p, e, st1)"
      by (cases "push_loop rt (sort_key e_id (queue st0)) 0 0 st0") auto
    obtain today w2 where td: "rt_today rt (world st1) = (today, w2)"
      by (cases "rt_today rt (world st1)")
    obtain pl2 st2 where ps: "pull_stores rt today DATE_INDEXED_STORES 0 (st1\<lparr>world := w2\<rparr>) = (pl2, st2)"
      by (cases "pull_stores rt today DATE_INDEXED_STORES 0 (st1\<lparr>world := w2\<rparr>)")
    from assms on False pl td ps have r: "st' = st2"
      by (auto simp: syncNow_def Let_def st0_def)
    from push_loop_queue_ok [OF pl ok0] have ok1: "queue_ok st1" .
    from pull_stores_frame [OF ps] pull_stores_queue_gen [OF ps]
    have "queue st2 = queue st1" "queue_gen st2 = queue_gen st1" by simp_all
    with ok1 r show ?thesis by (simp add: queue_ok_def)
  qed
qed

lemma enqueue_queue_ok:
  assumes "queue_ok st" and "sheet \<noteq> ''sync_queue''"
  shows "queue_ok (enqueue rt sheet action dat ri st)"
proof -
  obtain ts w where n: "rt_now rt (world st) = (ts, w)" by (cases "rt_now rt (world st)")
  define ent where "ent = \<lparr>e_id = queue_gen st, e_sheet = sheet, e_action = action, e_data = dat,
                 e_rowIndex = js_or ri JNull, e_timestamp = ts, e_retries = 0\<rparr>"
  have q: "queue (enqueue rt sheet action dat ri st) = insort_key e_id ent (queue st)"
    and g: "queue_gen (enqueue rt sheet action dat ri st) = Suc (queue_gen st)"
    using n by (simp_all add: enqueue_def Let_def ent_def)
  from assms(1) have below: "\<forall>x \<in> set (queue st). e_id x < queue_gen st \<and> e_sheet x \<noteq> ''sync_queue''"
    and d: "distinct (map e_id (queue st))"
    by (simp_all add: queue_ok_def list_all_iff)
  have ent: "e_id ent = queue_gen st" "e_sheet ent = sheet" by (simp_all add: ent_def)
  from below ent have fresh: "e_id ent \<notin> e_id ` set (queue st)" by auto
  then have "ent \<notin> set (queue st)" by (metis imageI)
  with d fresh have "distinct (map e_id (insort_key e_id ent (queue st)))"
    by (simp add: distinct_map distinct_insort set_insort_key)
  moreover have "\<forall>x \<in> set (insort_key e_id ent (queue st)).
                    e_id x < Suc (queue_gen st) \<and> e_sheet x \<noteq> ''sync_queue''"
    using below ent assms(2) by (auto simp: set_insort_key less_Suc_eq)
  ultimately show ?thesis unfolding queue_ok_def q g by (simp add: list_all_iff)
qed

lemma queue_ok_other:
  assumes "queue_ok s"
  shows "queue_ok (s\<lparr>world := x\<rparr>)" and "queue_ok (s\<lparr>tables := y\<rparr>)"
  using assms by (simp_all add: queue_ok_def)

lemma save_queue_ok:
  assumes "save rt sheet row st = (res, st')" and "queue_ok st"
  shows "queue_ok st'"
proof -
  obtain now w where n: "rt_now rt (world st) = (now, w)" by (cases "rt_now rt (world st)")
  define st1 where "st1 = st\<lparr>world := w\<rparr>"
  define rec where "rec = row ++ [''_synced'' \<mapsto> JBool False, ''_modified'' \<mapsto> JNum now,
                                 ''_deleted'' \<mapsto> JBool False]"
  have ok1: "queue_ok st1" using assms(2) by (simp add: st1_def queue_ok_other)
  show ?thesis
  proof (cases "open_store sheet")
    case (Inl e)
    with assms(1) n have "st' = st1" by (simp add: save_def st1_def)
    with ok1 show ?thesis by simp
  next
    case (Inr u)
    then have ns: "sheet \<noteq> ''sync_queue''" by (auto simp: open_store_def)
    show ?thesis
    proof (cases "store_write False (keyPath sheet) (autoIncrement sheet) rec (tables st1 sheet)")
      case (Inl e)
      with assms(1) n Inr have "st' = st1" by (simp add: save_def st1_def rec_def)
      with ok1 show ?thesis by simp
    next
      case wr: (Inr kt)
      obtain k t' where kt: "kt = (k, t')" by (cases kt)
      with assms(1) n Inr wr
      have "st' = enqueue rt sheet ''append'' (rec(''id'' \<mapsto> k)) JUndef
                    (st1\<lparr>tables := (tables st1)(sheet := t')\<rparr>)"
        by (simp add: save_def st1_def rec_def Let_def)
      with enqueue_queue_ok [OF queue_ok_other(2) [OF ok1] ns] show ?thesis by simp
    qed
  qed
qed

lemma delete_queue_ok:
  assumes "delete rt sheet ident st = (res, st')" and "queue_ok st"
  shows "queue_ok st'"
proof (cases "open_store sheet")
  case (Inl e)
  with assms show ?thesis by (simp add: delete_def)
next
  case (Inr u)
  then have ns: "sheet \<noteq> ''sync_queue''" by (auto simp: open_store_def)
  show ?thesis
  proof (cases "store_get (keyPath sheet) ident (tables st sheet)")
    case (Inl e)
    with assms Inr show ?thesis by (simp add: delete_def)
  next
    case g: (Inr found)
    show ?thesis
    proof (cases found)
      case None
      with assms Inr g show ?thesis by (simp add: delete_def)
    next
      case (Some existing)
      obtain now w where n: "rt_now rt (world st) = (now, w)" by (cases "rt_now rt (world st)")
      define st1 where "st1 = st\<lparr>world := w\<rparr>"
      define deleted where "deleted = existing ++ [''_deleted'' \<mapsto> JBool True, ''_synced'' \<mapsto> JBool False,
                                        ''_modified'' \<mapsto> JNum now]"
      have ok1: "queue_ok st1" using assms(2) by (simp add: st1_def queue_ok_other)
      show ?thesis
      proof (cases "store_write True (keyPath sheet) (autoIncrement sheet) deleted (tables st1 sheet)")
        case (Inl e)
        with assms(1) n Inr g Some have "st' = st1"
          by (simp add: delete_def st1_def deleted_def)
        with ok1 show ?thesis by simp
      next
        case wr: (Inr kt)
        obtain k t' where kt: "kt = (k, t')" by (cases kt)
        with assms(1) n Inr g Some wr
        have "st' = enqueue rt sheet ''delete'' deleted (js_or (getf deleted ''_rowIndex'') JNull)
                       (st1\<lparr>tables := (tables st1)(sheet := t')\<rparr>)"
          by (simp add: delete_def st1_def deleted_def Let_def)
        with enqueue_queue_ok [OF queue_ok_other(2) [OF ok1] ns] show ?thesis by simp
      qed
    qed
  qed
qed


section \<open>Merge lemmas\<close>

lemma rowArrayToObject_cols_dom_prefix:
  assumes "n \<le> length cols"
  shows "(fold (\<lambda>i ob. ob(cols ! i \<mapsto> (if i < length arr then arr ! i else JNull)))
              [0..<n] Map.empty) c = None \<longleftrightarrow> c \<notin> set (take n cols)"
  using assms
proof (induction n)
  case 0
  show ?case by simp
next
  case (Suc n)
  then have n: "n < length cols" by simp
  have "set (take (Suc n) cols) = insert (cols ! n) (set (take n cols))"
    using n by (simp add: take_Suc_conv_app_nth)
  with Suc n show ?case by auto
qed

lemma rowArrayToObject_cols_dom: "dom (rowArrayToObject_cols cols arr) = set cols"
  unfolding rowArrayToObject_cols_def dom_def
  using rowArrayToObject_cols_dom_prefix [of "length cols" cols arr] by auto

lemma decoded_dom:
  assumes "rowArrayToObject sheet rowArr = Some decoded"
  shows "\<exists>cols. COLUMNS sheet = Some cols \<and> dom decoded = set cols"
proof -
  from assms obtain cols where "COLUMNS sheet = Some cols" "decoded = rowArrayToObject_cols cols rowArr"
    by (auto simp: rowArrayToObject_def split: option.splits)
  then show ?thesis using rowArrayToObject_cols_dom [of cols rowArr] by simp
qed

text \<open>No column is one of the sync metadata fields; \<open>id\<close> is a column of the two keyed sheets only.\<close>

lemma column_names:
  assumes "COLUMNS sheet = Some cols" and "c \<in> set cols"
  shows "c \<notin> {''_sheetRowIndex'', ''_synced'', ''_modified'', ''_deleted'', ''_rowIndex''}"
    and "c = ''id'' \<longrightarrow> sheet = ''habit_defs'' \<or> sheet = ''goals''"
  using assms by (auto simp: COLUMNS_def split: if_splits)

lemma findMatchingRecord_world [simp]:
  "findMatchingRecord sheet ob (st\<lparr>world := w\<rparr>) = findMatchingRecord sheet ob st"
  by (simp add: findMatchingRecord_def)

lemma findMatchingRecord_found:
  assumes "findMatchingRecord sheet ob st = Inr (Some match)"
  shows "match \<in> set (t_rows (tables st sheet))"
    and "sheet = ''profile'' \<longrightarrow> valid_key (getf ob ''key'') \<and> getf match ''key'' = getf ob ''key''"
    and "sheet = ''habit_defs'' \<or> sheet = ''goals'' \<longrightarrow>
           valid_key (getf ob ''id'') \<and> getf match ''id'' = getf ob ''id''"
proof -
  show "match \<in> set (t_rows (tables st sheet))"
    using assms
    by (auto simp: findMatchingRecord_def index_getAll_def Let_def
             split: if_splits sum.splits dest: store_get_found(3) find_Some_holds)
  show "sheet = ''profile'' \<longrightarrow> valid_key (getf ob ''key'') \<and> getf match ''key'' = getf ob ''key''"
    using assms by (auto simp: findMatchingRecord_def dest: store_get_found(1,2))
  show "sheet = ''habit_defs'' \<or> sheet = ''goals'' \<longrightarrow>
           valid_key (getf ob ''id'') \<and> getf match ''id'' = getf ob ''id''"
    using assms by (auto simp: findMatchingRecord_def split: if_splits dest: store_get_found(1,2))
qed

lemma stamp_row_fields [simp]:
  "getf (stamp_row i now ob) ''_sheetRowIndex'' = JNum (int i)"
  "getf (stamp_row i now ob) ''_synced'' = JBool True"
  "getf (stamp_row i now ob) ''_modified'' = JNum now"
  "getf (stamp_row i now ob) ''_deleted'' = JBool False"
  by (simp_all add: stamp_row_def)

lemma stamp_row_other:
  assumes "c \<notin> {''_sheetRowIndex'', ''_synced'', ''_modified'', ''_deleted''}"
  shows "stamp_row i now ob c = ob c"
  using assms by (simp add: stamp_row_def)

text \<open>
  C4.  Pull-merge of a row whose decoded, stamped record matches a local record
  \<open>match\<close> (by \<open>findMatchingRecord\<close>): if \<open>match._synced\<close> is \<open>false\<close> and
  \<open>match._modified\<close> is greater than the stamp \<open>now\<close> the row got at merge
  time, the row is dropped: the iteration changes no table (only the clock was
  read), the match is still a row of its table, the row is not counted as
  merged and the loop goes on with the next row.
\<close>

theorem merge_local_wins:
  assumes "rowArrayToObject sheet rowArr = Some decoded"
    and "rt_now rt (world st) = (now, w)"
    and "findMatchingRecord sheet (stamp_row i now decoded) st = Inr (Some match)"
    and "getf match ''_synced'' = JBool False"
    and "js_gt (getf match ''_modified'') (JNum now)"
  shows "merge_row rt sheet i rowArr st = (Inr False, st\<lparr>world := w\<rparr>)
       \<and> tables (snd (merge_row rt sheet i rowArr st)) = tables st
       \<and> match \<in> set (t_rows (tables (snd (merge_row rt sheet i rowArr st)) sheet))
       \<and> (\<forall>rest merged. merge_rows rt sheet (rowArr # rest) i merged st
                          = merge_rows rt sheet rest (i + 1) merged (st\<lparr>world := w\<rparr>))"
proof -
  have lw: "local_wins match (stamp_row i now decoded)"
    using assms(4,5) by (simp add: local_wins_def)
  with assms(1,2,3) have m: "merge_row rt sheet i rowArr st = (Inr False, st\<lparr>world := w\<rparr>)"
    by (simp add: merge_row_def Let_def)
  moreover have "match \<in> set (t_rows (tables st sheet))"
    using findMatchingRecord_found(1) [OF assms(3)] .
  ultimately show ?thesis by simp
qed


lemma remote_merge_fields:
  "getf (remote_merge match ob) ''id'' = getf match ''id''"
  "getf (remote_merge match ob) ''_rowIndex'' = getf ob ''_sheetRowIndex''"
  "c \<noteq> ''id'' \<Longrightarrow> c \<noteq> ''_rowIndex'' \<Longrightarrow> ob c \<noteq> None \<Longrightarrow> getf (remote_merge match ob) c = getf ob c"
  "c \<noteq> ''id'' \<Longrightarrow> c \<noteq> ''_rowIndex'' \<Longrightarrow> ob c = None \<Longrightarrow> getf (remote_merge match ob) c = getf match c"
  by (auto simp: remote_merge_def getf_def map_add_def split: option.splits)

lemma stamp_row_dom: "stamp_row i now ob c = None \<longleftrightarrow>
    ob c = None \<and> c \<notin> {''_sheetRowIndex'', ''_synced'', ''_modified'', ''_deleted''}"
  by (simp add: stamp_row_def)

text \<open>The key under which the merged record is put: the match's own.\<close>

lemma remote_merge_key:
  assumes "rowArrayToObject sheet rowArr = Some decoded"
    and "findMatchingRecord sheet (stamp_row i now decoded) st = Inr (Some match)"
  shows "getf (remote_merge match (stamp_row i now decoded)) (keyPath sheet) = getf match (keyPath sheet)"
proof (cases "sheet = ''profile''")
  case True
  from decoded_dom [OF assms(1)] True have "decoded ''key'' \<noteq> None"
    by (auto simp: COLUMNS_def)
  then have "stamp_row i now decoded ''key'' \<noteq> None" by (simp add: stamp_row_dom)
  then have "getf (remote_merge match (stamp_row i now decoded)) ''key''
             = getf (stamp_row i now decoded) ''key''"
    by (simp add: remote_merge_fields)
  with findMatchingRecord_found(2) [OF assms(2)] True show ?thesis by (simp add: keyPath_def)
next
  case False
  then show ?thesis by (simp add: keyPath_def remote_merge_fields)
qed

lemma merge_remote_wins_core:
  assumes "rowArrayToObject sheet rowArr = Some decoded"
    and "COLUMNS sheet = Some cols"
    and "rt_now rt (world st) = (now, w)"
    and "findMatchingRecord sheet (stamp_row i now decoded) st = Inr (Some match)"
    and "\<not> local_wins match (stamp_row i now decoded)"
    and "keys_valid (keyPath sheet) (tables st sheet)"
  shows "\<exists>st' updated.
           merge_row rt sheet i rowArr st = (Inr True, st')
         \<and> updated = remote_merge match (stamp_row i now decoded)
         \<and> store_get (keyPath sheet) (getf match (keyPath sheet)) (tables st' sheet) = Inr (Some updated)
         \<and> updated \<in> set (t_rows (tables st' sheet))
         \<and> (\<forall>c \<in> set cols. getf updated c = getf decoded c)
         \<and> getf updated ''id'' = getf match ''id''
         \<and> getf updated ''_rowIndex'' = JNum (int i)
         \<and> getf updated ''_synced'' = JBool True
         \<and> getf updated ''_deleted'' = JBool False
         \<and> queue st' = queue st"
proof -
  let ?kp = "keyPath sheet"
  define ob where "ob = stamp_row i now decoded"
  define updated where "updated = remote_merge match ob"
  define st1 where "st1 = st\<lparr>world := w\<rparr>"
  have vk: "valid_key (getf match ?kp)"
    using findMatchingRecord_found(1) [OF assms(4)] assms(6)
    by (auto simp: keys_valid_def list_all_iff)
  have key: "getf updated ?kp = getf match ?kp"
    using remote_merge_key [OF assms(1,4)] by (simp add: updated_def ob_def)
  have "\<exists>k t'. store_write True ?kp (autoIncrement sheet) updated (tables st sheet) = Inr (k, t')"
  proof (cases "list_ex (\<lambda>x. getf x ?kp = getf updated ?kp) (t_rows (tables st sheet))")
    case True
    from store_write_put_existing [OF _ True] vk key show ?thesis by simp
  next
    case False
    with vk key show ?thesis
      by (auto simp: store_write_def Let_def write_key_def valid_key_def)
  qed
  then obtain k t' where w: "store_write True ?kp (autoIncrement sheet) updated (tables st sheet) = Inr (k, t')"
    by blast
  from store_write_key(1) [OF w] key vk have k: "k = getf match ?kp"
    by (auto simp: write_key_def valid_key_def)
  have sa: "stored_as ?kp k updated = updated"
    using key vk by (auto simp: stored_as_def valid_key_def)
  note res = store_write_result [OF w]
  define st' where "st' = st1\<lparr>tables := (tables st1)(sheet := t')\<rparr>"
  have m: "merge_row rt sheet i rowArr st = (Inr True, st')"
    using assms(1,3,4,5) w
    by (simp add: merge_row_def Let_def ob_def [symmetric] updated_def [symmetric] st1_def st'_def)
  have tab: "tables st' sheet = t'" "queue st' = queue st" by (simp_all add: st'_def st1_def)
  from decoded_dom [OF assms(1)] assms(2) have dom: "dom decoded = set cols" by simp
  have cols: "\<forall>c \<in> set cols. getf updated c = getf decoded c"
  proof
    fix c assume c: "c \<in> set cols"
    note cn = column_names [OF assms(2) c]
    from c dom have dc: "decoded c \<noteq> None" by blast
    then have oc: "ob c \<noteq> None" by (simp add: ob_def stamp_row_dom)
    have obc: "getf ob c = getf decoded c"
      using cn(1) by (simp add: ob_def getf_def stamp_row_other)
    show "getf updated c = getf decoded c"
    proof (cases "c = ''id''")
      case True
      with cn(2) findMatchingRecord_found(3) [OF assms(4)]
      have "getf match ''id'' = getf ob ''id''" by (simp add: ob_def)
      with True obc show ?thesis by (simp add: updated_def remote_merge_fields)
    next
      case False
      with cn(1) oc obc show ?thesis by (simp add: updated_def remote_merge_fields)
    qed
  qed
  have flds: "getf updated ''id'' = getf match ''id''" "getf updated ''_rowIndex'' = JNum (int i)"
    "getf updated ''_synced'' = JBool True" "getf updated ''_deleted'' = JBool False"
    by (simp_all add: updated_def ob_def remote_merge_fields stamp_row_dom)
  from m res(1,2) sa k tab cols flds show ?thesis
    unfolding updated_def ob_def by simp
qed


lemma ex_decode: "rowArrayToObject ''water'' ex_row = Some ex_decoded"
  by (simp add: rowArrayToObject_def COLUMNS_def rowArrayToObject_cols_def ex_row_def ex_decoded_def
        upt_rec fun_eq_iff)

lemma ex_now: "rt_now (ex_rt rd) w = (1000, w)"
  by (simp add: ex_rt_def)

lemma ex_find:
  "findMatchingRecord ''water'' (stamp_row 0 1000 ex_decoded) (ex_local [ex_rec s m d] q)
   = Inr (Some (ex_rec s m d))"
  by (simp add: findMatchingRecord_def DATE_INDEXED_STORES_def index_getAll_def ex_local_def
        ex_rec_def ex_decoded_def stamp_row_def getf_def truthy_def valid_key_def key_enc_def
        naturalKeys_def natural_match_def key_string_def js_String_def)


lemma findMatchingRecord_date:
  assumes "findMatchingRecord sheet ob st = Inr (Some match)" and "sheet \<in> set DATE_INDEXED_STORES"
  shows "valid_key (getf ob ''date'')"
  using assms
  by (auto simp: findMatchingRecord_def index_getAll_def DATE_INDEXED_STORES_def
           split: if_splits sum.splits)

text \<open>
  C5.  Pull-merge of a row whose decoded, stamped record matches a local record
  \<open>match\<close> when the local-wins condition does not hold (in a table whose
  records carry valid keys): the record stored under the key of \<open>match\<close>
  afterwards is \<open>Object.assign({}, match, obj, {id: match.id, _rowIndex: i})\<close>;
  it has the remote value at every column of the sheet, the \<open>id\<close> of the
  match, \<open>_rowIndex\<close> equal to the position \<open>i\<close> of the row and
  \<open>_synced = true\<close>; the row is counted as merged.
\<close>

theorem merge_remote_wins:
  fixes rt :: "'w runtime"
  assumes "rowArrayToObject sheet rowArr = Some decoded"
    and "COLUMNS sheet = Some cols"
    and "rt_now rt (world st) = (now, w)"
    and "findMatchingRecord sheet (stamp_row i now decoded) st = Inr (Some match)"
    and "\<not> local_wins match (stamp_row i now decoded)"
    and "keys_valid (keyPath sheet) (tables st sheet)"
  shows "\<exists>st' updated.
           merge_row rt sheet i rowArr st = (Inr True, st')
         \<and> updated = remote_merge match (stamp_row i now decoded)
         \<and> store_get (keyPath sheet) (getf match (keyPath sheet)) (tables st' sheet) = Inr (Some updated)
         \<and> (\<forall>c \<in> set cols. getf updated c = getf decoded c)
         \<and> getf updated ''id'' = getf match ''id''
         \<and> getf updated ''_rowIndex'' = JNum (int i)
         \<and> getf updated ''_synced'' = JBool True
         \<and> (\<forall>rest merged. merge_rows rt sheet (rowArr # rest) i merged st
                            = merge_rows rt sheet rest (i + 1) (merged + 1) st')"
proof -
  from merge_remote_wins_core [OF assms] obtain st' updated where
    c: "merge_row rt sheet i rowArr st = (Inr True, st')"
       "updated = remote_merge match (stamp_row i now decoded)"
       "store_get (keyPath sheet) (getf match (keyPath sheet)) (tables st' sheet) = Inr (Some updated)"
       "\<forall>c \<in> set cols. getf updated c = getf decoded c"
       "getf updated ''id'' = getf match ''id''"
       "getf updated ''_rowIndex'' = JNum (int i)"
       "getf updated ''_synced'' = JBool True"
    by blast
  from c(1) have "\<forall>rest merged. merge_rows rt sheet (rowArr # rest) i merged st
                            = merge_rows rt sheet rest (i + 1) (merged + 1) st'"
    by simp
  with c show ?thesis by blast
qed

text \<open>
  C9.  A local record that is soft-deleted (\<open>_deleted = true\<close>), with its
  \<open>delete\<close> entry still queued, and that matches a pulled row: whenever the
  local-wins condition does not hold, the merge stores the record under its key
  with \<open>_deleted = false\<close> and \<open>_synced = true\<close>, the \<open>delete\<close> entry is
  still queued, and on a date-indexed sheet \<open>get\<close> for the record's date
  returns it again.
\<close>

theorem merge_resurrects_soft_deleted:
  fixes rt :: "'w runtime"
  assumes "rowArrayToObject sheet rowArr = Some decoded"
    and "COLUMNS sheet = Some cols"
    and "rt_now rt (world st) = (now, w)"
    and "findMatchingRecord sheet (stamp_row i now decoded) st = Inr (Some match)"
    and "\<not> local_wins match (stamp_row i now decoded)"
    and "keys_valid (keyPath sheet) (tables st sheet)"
    and "getf match ''_deleted'' = JBool True"
    and "pending \<in> set (queue st)" and "e_action pending = ''delete''" and "e_sheet pending = sheet"
    and "getf (e_data pending) (keyPath sheet) = getf match (keyPath sheet)"
  shows "\<exists>st' updated.
           merge_row rt sheet i rowArr st = (Inr True, st')
         \<and> updated = remote_merge match (stamp_row i now decoded)
         \<and> store_get (keyPath sheet) (getf match (keyPath sheet)) (tables st' sheet) = Inr (Some updated)
         \<and> getf updated ''_deleted'' = JBool False
         \<and> getf updated ''_synced'' = JBool True
         \<and> pending \<in> set (queue st')
         \<and> (sheet \<in> set DATE_INDEXED_STORES \<longrightarrow>
               (\<exists>rs. get sheet \<lparr>opt_from = JUndef, opt_to = JUndef, opt_date = getf updated ''date'',
                                 opt_limit = JUndef\<rparr> st' = Inr rs
                     \<and> updated \<in> set rs))"
proof -
  from merge_remote_wins_core [OF assms(1-6)] obtain st' updated where
    c: "merge_row rt sheet i rowArr st = (Inr True, st')"
       "updated = remote_merge match (stamp_row i now decoded)"
       "store_get (keyPath sheet) (getf match (keyPath sheet)) (tables st' sheet) = Inr (Some updated)"
       "updated \<in> set (t_rows (tables st' sheet))"
       "\<forall>c \<in> set cols. getf updated c = getf decoded c"
       "getf updated ''_synced'' = JBool True"
       "getf updated ''_deleted'' = JBool False"
       "queue st' = queue st"
    by blast
  have vis: "\<exists>rs. get sheet \<lparr>opt_from = JUndef, opt_to = JUndef, opt_date = getf updated ''date'',
                                 opt_limit = JUndef\<rparr> st' = Inr rs \<and> updated \<in> set rs"
    if ds: "sheet \<in> set DATE_INDEXED_STORES"
  proof -
    from ds assms(2) have dcol: "''date'' \<in> set cols"
      by (auto simp: DATE_INDEXED_STORES_def COLUMNS_def)
    with c(5) have "getf updated ''date'' = getf decoded ''date''" by blast
    also have "\<dots> = getf (stamp_row i now decoded) ''date''"
      by (simp add: getf_def stamp_row_other)
    finally have "valid_key (getf updated ''date'')"
      using findMatchingRecord_date [OF assms(4) ds] by simp
    then have nb: "getf updated ''date'' \<noteq> JBool True" by (auto simp: valid_key_def)
    have live: "\<not> truthy (getf updated ''_deleted'')" by (simp add: c(7) truthy_def)
    from get_by_date_includes [OF ds nb c(4) refl live] show ?thesis .
  qed
  from c assms(8) vis show ?thesis by auto
qed


section \<open>Example merges, save and delete\<close>

lemma ex_local_sel [simp]:
  "tables (ex_local rs q) ''water'' = \<lparr>t_rows = rs, t_keygen = 2\<rparr>" "queue (ex_local rs q) = q"
  "world (ex_local rs q) = []"
  by (simp_all add: ex_local_def)

lemma ex_delete:
  "delete (ex_rt rd) ''water'' (JNum 1) (ex_local [ex_rec True 500 False] [])
   = (Inr True, ex_local [ex_rec False 1000 True] [ex_pending])"
  by (simp add: delete_def open_store_def ALL_STORES_def store_get_def valid_key_def keyPath_def
        autoIncrement_def ex_local_def ex_rec_def ex_rt_def Let_def store_write_def write_key_def
        stored_as_def next_keygen_def enqueue_def ex_pending_def js_or_def truthy_def getf_def
        fun_eq_iff map_add_def)

theorem merge_local_wins_witness:
  "rowArrayToObject ''water'' ex_row = Some ex_decoded
   \<and> findMatchingRecord ''water'' (stamp_row 0 1000 ex_decoded) (ex_local [ex_rec False 2000 False] [])
       = Inr (Some (ex_rec False 2000 False))
   \<and> js_gt (JNum 2000) (JNum 1000)
   \<and> merge_row (ex_rt ReadThrew) ''water'' 0 ex_row (ex_local [ex_rec False 2000 False] [])
       = (Inr False, (ex_local [ex_rec False 2000 False] [])\<lparr>world := []\<rparr>)
   \<and> getf (ex_rec False 2000 False) ''amount_ml'' = JNum 250"
proof -
  let ?st = "ex_local [ex_rec False 2000 False] []"
  have n: "rt_now (ex_rt ReadThrew) (world ?st) = (1000, [])" by (simp add: ex_now)
  have s: "getf (ex_rec False 2000 False) ''_synced'' = JBool False" by (simp add: ex_rec_def)
  have g: "js_gt (getf (ex_rec False 2000 False) ''_modified'') (JNum 1000)"
    by (simp add: ex_rec_def js_gt_def to_number_def)
  from merge_local_wins [OF ex_decode n ex_find s g]
  have "merge_row (ex_rt ReadThrew) ''water'' 0 ex_row ?st = (Inr False, ?st\<lparr>world := []\<rparr>)"
    by blast
  moreover have "js_gt (JNum 2000) (JNum 1000)" by (simp add: js_gt_def to_number_def)
  moreover have "getf (ex_rec False 2000 False) ''amount_ml'' = JNum 250" by (simp add: ex_rec_def)
  ultimately show ?thesis using ex_decode ex_find by simp
qed

lemma ex_columns: "COLUMNS ''water'' = Some [''date'', ''time'', ''amount_ml'']"
  by (simp add: COLUMNS_def)

theorem merge_remote_wins_witness:
  "rowArrayToObject ''water'' ex_row = Some ex_decoded
   \<and> findMatchingRecord ''water'' (stamp_row 0 1000 ex_decoded) (ex_local [ex_rec True 500 False] [])
       = Inr (Some (ex_rec True 500 False))
   \<and> \<not> local_wins (ex_rec True 500 False) (stamp_row 0 1000 ex_decoded)
   \<and> (\<exists>st' updated.
         merge_row (ex_rt ReadThrew) ''water'' 0 ex_row (ex_local [ex_rec True 500 False] []) = (Inr True, st')
       \<and> store_get ''id'' (JNum 1) (tables st' ''water'') = Inr (Some updated)
       \<and> getf updated ''amount_ml'' = JNum 300 \<and> getf updated ''id'' = JNum 1
       \<and> getf updated ''_rowIndex'' = JNum 0 \<and> getf updated ''_synced'' = JBool True)"
proof -
  let ?st = "ex_local [ex_rec True 500 False] []"
  have n: "rt_now (ex_rt ReadThrew) (world ?st) = (1000, [])" by (simp add: ex_now)
  have l: "\<not> local_wins (ex_rec True 500 False) (stamp_row 0 1000 ex_decoded)"
    by (simp add: local_wins_def ex_rec_def)
  have v: "keys_valid (keyPath ''water'') (tables ?st ''water'')"
    by (simp add: keys_valid_def keyPath_def ex_rec_def valid_key_def)
  from merge_remote_wins [OF ex_decode ex_columns n ex_find l v] obtain st' updated where
    c: "merge_row (ex_rt ReadThrew) ''water'' 0 ex_row ?st = (Inr True, st')"
       "store_get (keyPath ''water'') (getf (ex_rec True 500 False) (keyPath ''water'')) (tables st' ''water'')
          = Inr (Some updated)"
       "\<forall>c \<in> set [''date'', ''time'', ''amount_ml'']. getf updated c = getf ex_decoded c"
       "getf updated ''id'' = getf (ex_rec True 500 False) ''id''"
       "getf updated ''_rowIndex'' = JNum (int 0)"
       "getf updated ''_synced'' = JBool True"
    by blast
  from c(2) have "store_get ''id'' (JNum 1) (tables st' ''water'') = Inr (Some updated)"
    by (simp add: keyPath_def ex_rec_def)
  moreover from c(3) have "getf updated ''amount_ml'' = JNum 300" by (simp add: ex_decoded_def)
  moreover from c(4) have "getf updated ''id'' = JNum 1" by (simp add: ex_rec_def)
  ultimately show ?thesis using ex_decode ex_find l c(1,5,6) by auto
qed

theorem merge_resurrects_soft_deleted_witness:
  "delete (ex_rt ReadThrew) ''water'' (JNum 1) (ex_local [ex_rec True 500 False] [])
     = (Inr True, ex_local [ex_rec False 1000 True] [ex_pending])
   \<and> \<not> local_wins (ex_rec False 1000 True) (stamp_row 0 1000 ex_decoded)
   \<and> (\<exists>st' updated.
         merge_row (ex_rt ReadThrew) ''water'' 0 ex_row
           (ex_local [ex_rec False 1000 True] [ex_pending]) = (Inr True, st')
       \<and> store_get ''id'' (JNum 1) (tables st' ''water'') = Inr (Some updated)
       \<and> getf updated ''_deleted'' = JBool False \<and> getf updated ''_synced'' = JBool True
       \<and> ex_pending \<in> set (queue st')
       \<and> (\<exists>rs. get ''water'' ex_by_date st' = Inr rs \<and> updated \<in> set rs))"
proof -
  let ?st = "ex_local [ex_rec False 1000 True] [ex_pending]"
  have n: "rt_now (ex_rt ReadThrew) (world ?st) = (1000, [])" by (simp add: ex_now)
  have f: "findMatchingRecord ''water'' (stamp_row 0 1000 ex_decoded) ?st
           = Inr (Some (ex_rec False 1000 True))"
    by (rule ex_find)
  have l: "\<not> local_wins (ex_rec False 1000 True) (stamp_row 0 1000 ex_decoded)"
    by (simp add: local_wins_def ex_rec_def js_gt_def to_number_def)
  have v: "keys_valid (keyPath ''water'') (tables ?st ''water'')"
    by (simp add: keys_valid_def keyPath_def ex_rec_def valid_key_def)
  have d: "getf (ex_rec False 1000 True) ''_deleted'' = JBool True" by (simp add: ex_rec_def)
  have p: "ex_pending \<in> set (queue ?st)" "e_action ex_pending = ''delete''" "e_sheet ex_pending = ''water''"
    "getf (e_data ex_pending) (keyPath ''water'') = getf (ex_rec False 1000 True) (keyPath ''water'')"
    by (simp_all add: ex_pending_def)
  have ds: "''water'' \<in> set DATE_INDEXED_STORES" by (simp add: DATE_INDEXED_STORES_def)
  from merge_resurrects_soft_deleted [OF ex_decode ex_columns n f l v d p] ds
  obtain st' updated where
    c: "merge_row (ex_rt ReadThrew) ''water'' 0 ex_row ?st = (Inr True, st')"
       "store_get (keyPath ''water'') (getf (ex_rec False 1000 True) (keyPath ''water'')) (tables st' ''water'')
          = Inr (Some updated)"
       "getf updated ''_deleted'' = JBool False" "getf updated ''_synced'' = JBool True"
       and u: "updated = remote_merge (ex_rec False 1000 True) (stamp_row 0 1000 ex_decoded)"
       and c2:
       "ex_pending \<in> set (queue st')"
       "\<exists>rs. get ''water'' \<lparr>opt_from = JUndef, opt_to = JUndef, opt_date = getf updated ''date'',
                                 opt_limit = JUndef\<rparr> st' = Inr rs \<and> updated \<in> set rs"
    by blast
  from c(2) have g: "store_get ''id'' (JNum 1) (tables st' ''water'') = Inr (Some updated)"
    by (simp add: keyPath_def ex_rec_def)
  from u have "getf updated ''date'' = JStr ''2026-02-12''"
    by (simp add: remote_merge_def stamp_row_def ex_decoded_def getf_def map_add_def)
  with c2(2) have "\<exists>rs. get ''water'' ex_by_date st' = Inr rs \<and> updated \<in> set rs"
    by (simp add: ex_by_date_def)
  with c c2(1) g l ex_delete [of ReadThrew] show ?thesis by blast
qed


text \<open>
  C8.  For a date-indexed sheet and a row whose \<open>date\<close> is not the boolean
  \<open>true\<close> (a date string, a number or absent): whenever \<open>save\<close> resolves
  with a record, \<open>get(sheet, {date: row.date})\<close> on the resulting state
  returns a list that holds that record; the record agrees with the row on
  every field but \<open>_synced\<close>, \<open>_modified\<close>, \<open>_deleted\<close> and \<open>id\<close>, has
  \<open>_synced = false\<close> and \<open>_deleted = false\<close>, carries as \<open>id\<close> the key it is
  stored under (the generator's number when the row brings none), and exactly
  one queue entry was added: an \<open>append\<close> carrying the record.  And
  \<open>save\<close> does resolve for a row without \<open>id\<close> when the key the generator
  issues is not taken.
\<close>

theorem save_read_after_write:
  fixes rt :: "'w runtime"
  assumes "sheet \<in> set DATE_INDEXED_STORES"
    and "getf row ''date'' \<noteq> JBool True"
  shows "(\<forall>rec st'. save rt sheet row st = (Inr rec, st') \<longrightarrow>
            (\<exists>rs item.
               get sheet \<lparr>opt_from = JUndef, opt_to = JUndef, opt_date = getf row ''date'',
                          opt_limit = JUndef\<rparr> st' = Inr rs
             \<and> rec \<in> set rs
             \<and> (\<forall>k. k \<notin> {''_synced'', ''_modified'', ''_deleted'', ''id''} \<longrightarrow> rec k = row k)
             \<and> getf rec ''_synced'' = JBool False \<and> getf rec ''_deleted'' = JBool False
             \<and> getf rec ''id'' = write_key ''id'' row (tables st sheet)
             \<and> store_get ''id'' (getf rec ''id'') (tables st' sheet) = Inr (Some rec)
             \<and> queue st' = insort_key e_id item (queue st)
             \<and> e_sheet item = sheet \<and> e_action item = ''append'' \<and> e_data item = rec
             \<and> e_retries item = 0))
       \<and> (getf row ''id'' = JUndef
            \<and> \<not> list_ex (\<lambda>x. getf x ''id'' = JNum (t_keygen (tables st sheet))) (t_rows (tables st sheet))
            \<longrightarrow> (\<exists>rec st'. save rt sheet row st = (Inr rec, st')))"
proof (intro conjI allI impI)
  fix rec st'
  assume "save rt sheet row st = (Inr rec, st')"
  from save_then_get [OF assms(1) this assms(2)]
  show "\<exists>rs item.
               get sheet \<lparr>opt_from = JUndef, opt_to = JUndef, opt_date = getf row ''date'',
                          opt_limit = JUndef\<rparr> st' = Inr rs
             \<and> rec \<in> set rs
             \<and> (\<forall>k. k \<notin> {''_synced'', ''_modified'', ''_deleted'', ''id''} \<longrightarrow> rec k = row k)
             \<and> getf rec ''_synced'' = JBool False \<and> getf rec ''_deleted'' = JBool False
             \<and> getf rec ''id'' = write_key ''id'' row (tables st sheet)
             \<and> store_get ''id'' (getf rec ''id'') (tables st' sheet) = Inr (Some rec)
             \<and> queue st' = insort_key e_id item (queue st)
             \<and> e_sheet item = sheet \<and> e_action item = ''append'' \<and> e_data item = rec
             \<and> e_retries item = 0" .
next
  assume "getf row ''id'' = JUndef
            \<and> \<not> list_ex (\<lambda>x. getf x ''id'' = JNum (t_keygen (tables st sheet))) (t_rows (tables st sheet))"
  then show "\<exists>rec st'. save rt sheet row st = (Inr rec, st')"
    using save_resolves [OF assms(1)] by blast
qed

theorem save_read_after_write_witness:
  "''water'' \<in> set DATE_INDEXED_STORES
   \<and> getf ex_decoded ''date'' \<noteq> JBool True
   \<and> (\<exists>rec st' rs.
         save (ex_rt ReadThrew) ''water'' ex_decoded (ex_local [] []) = (Inr rec, st')
       \<and> get ''water'' ex_by_date st' = Inr rs \<and> rec \<in> set rs
       \<and> getf rec ''amount_ml'' = JNum 300 \<and> getf rec ''id'' = JNum 2
       \<and> getf rec ''_synced'' = JBool False \<and> getf rec ''_deleted'' = JBool False
       \<and> length (queue st') = 1)"
proof -
  let ?st = "ex_local [] []"
  have ds: "''water'' \<in> set DATE_INDEXED_STORES" by (simp add: DATE_INDEXED_STORES_def)
  have dt: "getf ex_decoded ''date'' \<noteq> JBool True" by (simp add: ex_decoded_def)
  note T = save_read_after_write [OF ds dt, of "ex_rt ReadThrew" ?st]
  have fresh: "getf ex_decoded ''id'' = JUndef
      \<and> \<not> list_ex (\<lambda>x. getf x ''id'' = JNum (t_keygen (tables ?st ''water''))) (t_rows (tables ?st ''water''))"
    by (simp add: ex_decoded_def getf_def)
  from T [THEN conjunct2, rule_format, OF fresh]
  obtain rec st' where sv: "save (ex_rt ReadThrew) ''water'' ex_decoded ?st = (Inr rec, st')"
    by blast
  from T [THEN conjunct1, rule_format, OF sv] obtain rs item where
    c: "get ''water'' \<lparr>opt_from = JUndef, opt_to = JUndef, opt_date = getf ex_decoded ''date'',
                          opt_limit = JUndef\<rparr> st' = Inr rs"
       "rec \<in> set rs"
       "\<forall>k. k \<notin> {''_synced'', ''_modified'', ''_deleted'', ''id''} \<longrightarrow> rec k = ex_decoded k"
       "getf rec ''_synced'' = JBool False" "getf rec ''_deleted'' = JBool False"
       "getf rec ''id'' = write_key ''id'' ex_decoded (tables ?st ''water'')"
       "queue st' = insort_key e_id item (queue ?st)"
    by blast
  from c(1) have "get ''water'' ex_by_date st' = Inr rs" by (simp add: ex_by_date_def ex_decoded_def)
  moreover from c(3) have "rec ''amount_ml'' = ex_decoded ''amount_ml''" by simp
  then have "getf rec ''amount_ml'' = JNum 300" by (simp add: getf_def ex_decoded_def)
  moreover from c(6) have "getf rec ''id'' = JNum 2" by (simp add: write_key_def ex_decoded_def getf_def)
  moreover from c(7) have "length (queue st') = 1" by simp
  ultimately show ?thesis using ds dt sv c(2,4,5) by blast
qed

lemma ex_hidden: "get ''water'' ex_by_date (ex_local [ex_rec False 1000 True] [ex_pending]) = Inr []"
  by (simp add: get_def open_store_def ALL_STORES_def ex_by_date_def js_or_def truthy_def
          DATE_INDEXED_STORES_def index_getAll_def valid_key_def Let_def ex_rec_def getf_def key_enc_def)

lemma ex_purged:
  "t_rows (tables (after_success ex_pending (ex_local [ex_rec False 1000 True] [ex_pending])) ''water'') = []"
  by (simp add: after_success_def ex_pending_def markSynced_def purgeDeleted_def open_store_def
          ALL_STORES_def store_get_def valid_key_def keyPath_def ex_rec_def getf_def Let_def
          store_write_def write_key_def stored_as_def next_keygen_def autoIncrement_def
          store_delete_def)


theorem soft_delete_then_purge_witness:
  "open_store ''water'' = Inr ()
   \<and> store_get ''id'' (JNum 1) (tables (ex_local [ex_rec True 500 False] []) ''water'')
       = Inr (Some (ex_rec True 500 False))
   \<and> delete (ex_rt ReadThrew) ''water'' (JNum 1) (ex_local [ex_rec True 500 False] [])
       = (Inr True, ex_local [ex_rec False 1000 True] [ex_pending])
   \<and> ex_rec False 1000 True \<in> set (t_rows (tables (ex_local [ex_rec False 1000 True] [ex_pending]) ''water''))
   \<and> get ''water'' ex_by_date (ex_local [ex_rec False 1000 True] [ex_pending]) = Inr []
   \<and> t_rows (tables (after_success ex_pending (ex_local [ex_rec False 1000 True] [ex_pending])) ''water'') = []"
proof -
  let ?st = "ex_local [ex_rec True 500 False] []"
  let ?st' = "ex_local [ex_rec False 1000 True] [ex_pending]"
  have o: "open_store ''water'' = Inr ()" by (simp add: open_store_def ALL_STORES_def)
  have g: "store_get (keyPath ''water'') (JNum 1) (tables ?st ''water'') = Inr (Some (ex_rec True 500 False))"
    by (simp add: store_get_def valid_key_def keyPath_def ex_rec_def getf_def)
  have n: "rt_now (ex_rt ReadThrew) (world ?st) = (1000, [])" by (simp add: ex_now)
  from soft_delete_then_purge [OF o g n] obtain st' deleted where
    d: "delete (ex_rt ReadThrew) ''water'' (JNum 1) ?st = (Inr True, st')"
    and m: "deleted \<in> set (t_rows (tables st' ''water''))"
    and dd: "deleted = ex_rec True 500 False ++ [''_deleted'' \<mapsto> JBool True, ''_synced'' \<mapsto> JBool False,
                                   ''_modified'' \<mapsto> JNum 1000]"
    by blast
  from d ex_delete [of ReadThrew] have st': "st' = ?st'" by simp
  from m st' have "deleted = ex_rec False 1000 True" by simp
  with m st' have mem: "ex_rec False 1000 True \<in> set (t_rows (tables ?st' ''water''))" by simp
  from o g d st' mem ex_hidden ex_purged show ?thesis by (simp add: keyPath_def)
qed


section \<open>A soft delete undone by the next pull\<close>

lemma ex_day_delete:
  "delete ex_gateway ''water'' (JNum 1) (ex_day [ex_rec True 500 False] [] 1 [] 0)
   = (Inr True, ex_day [ex_rec False 1000 True] [ex_tomb 0] 2 [] 2)"
  by (simp add: delete_def open_store_def ALL_STORES_def store_get_def valid_key_def keyPath_def
        autoIncrement_def ex_day_def ex_rec_def ex_gateway_def Let_def store_write_def write_key_def
        stored_as_def next_keygen_def enqueue_def ex_tomb_def js_or_def truthy_def getf_def
        fun_eq_iff map_add_def)

lemma ex_day_hidden:
  "get ''water'' ex_by_date (ex_day [ex_rec False 1000 True] [ex_tomb 0] 2 [] 2) = Inr []"
  by (simp add: get_def open_store_def ALL_STORES_def ex_by_date_def js_or_def truthy_def
          DATE_INDEXED_STORES_def index_getAll_def valid_key_def Let_def ex_rec_def getf_def key_enc_def
          ex_day_def)

lemma ex_day_push:
  "push_loop ex_gateway [ex_tomb 0] 0 0 (ex_day [ex_rec False 1000 True] [ex_tomb 0] 2 [] 2)
   = (0, 1, ex_day [ex_rec False 1000 True] [ex_tomb 1] 2
              [Posted 1 (ReqDelete ''water'' JNull) (Returned False)] 2)"
  by (simp add: ex_tomb_def ex_day_def ex_gateway_def MAX_RETRIES_def pushToSheets_def push_request_def
        push_rowIndex_def js_or_def truthy_def getf_def ex_rec_def incrementRetries_def)


lemma ex_day_sel [simp]:
  "has_url (ex_day rs q g snt w)" "world (ex_day rs q g snt w) = w" "sent (ex_day rs q g snt w) = snt"
  "queue (ex_day rs q g snt w) = q"
  by (simp_all add: ex_day_def has_url_def)

lemma ex_gateway_sel [simp]:
  "rt_now ex_gateway w = (1000 + int w, Suc w)" "rt_today ex_gateway w = (''2026-02-12'', w)"
  "rt_online ex_gateway w = (True, w)"
  "rt_read ex_gateway (ReqRead s lo hi) w = (ReadJson True (Some (if s = ''water'' then [ex_row] else [])), w)"
  "rt_post ex_gateway (ReqDelete s ri) w = (Returned (truthy ri), w)"
  by (simp_all add: ex_gateway_def)

lemma ex_day_pull_other:
  assumes "s \<noteq> ''water''"
  shows "pullFromSheets ex_gateway s (JStr ''2026-02-12'') (JStr ''2026-02-12'') (ex_day rs q g snt w)
         = (Inr 0, ex_day rs q g
                     (snt @ [Fetched (ReqRead s (Some (JStr ''2026-02-12'')) (Some (JStr ''2026-02-12'')))]) w)"
  using assms by (simp add: pullFromSheets_def truthy_def Let_def) (simp add: ex_day_def)

lemma ex_day_merge:
  "merge_row ex_gateway ''water'' 0 ex_row (ex_day [ex_rec False 1000 True] q g snt 2)
   = (Inr True, ex_day [ex_back] q g snt 3)"
  by (simp add: merge_row_def rowArrayToObject_def COLUMNS_def rowArrayToObject_cols_def ex_row_def
        ex_gateway_def ex_day_def Let_def stamp_row_def findMatchingRecord_def DATE_INDEXED_STORES_def
        truthy_def getf_def index_getAll_def valid_key_def key_enc_def ex_rec_def naturalKeys_def
        natural_match_def key_string_def js_String_def local_wins_def js_gt_def to_number_def
        remote_merge_def store_write_def write_key_def stored_as_def next_keygen_def keyPath_def
        autoIncrement_def ex_back_def fun_eq_iff map_add_def)

lemma ex_day_pull_water:
  "pullFromSheets ex_gateway ''water'' (JStr ''2026-02-12'') (JStr ''2026-02-12'')
      (ex_day [ex_rec False 1000 True] q g snt 2)
   = (Inr 1, ex_day [ex_back] q g
               (snt @ [Fetched (ReqRead ''water'' (Some (JStr ''2026-02-12'')) (Some (JStr ''2026-02-12'')))]) 3)"
proof -
  have st: "ex_day [ex_rec False 1000 True] q g snt 2
              \<lparr>sent := snt @ [Fetched (ReqRead ''water'' (Some (JStr ''2026-02-12'')) (Some (JStr ''2026-02-12'')))],
               world := 2\<rparr>
            = ex_day [ex_rec False 1000 True] q g
               (snt @ [Fetched (ReqRead ''water'' (Some (JStr ''2026-02-12'')) (Some (JStr ''2026-02-12'')))]) 2"
    by (simp add: ex_day_def)
  show ?thesis
    by (simp add: pullFromSheets_def truthy_def Let_def st ex_day_merge)
qed


lemma ex_day_cycle:
  "syncNow ex_gateway (ex_day [ex_rec False 1000 True] [ex_tomb 0] 2 [] 2)
   = (\<lparr>pushed = 0, pulled = 1, errors = 1\<rparr>,
      ex_day [ex_back] [ex_tomb 1] 2 (Posted 1 (ReqDelete ''water'' JNull) (Returned False) # ex_reads) 3)"
proof -
  let ?st = "ex_day [ex_rec False 1000 True] [ex_tomb 0] 2 [] 2"
  have w0: "?st\<lparr>world := 2\<rparr> = ?st" by (simp add: ex_day_def)
  have w1: "(ex_day [ex_rec False 1000 True] [ex_tomb 1] 2
              [Posted 1 (ReqDelete ''water'' JNull) (Returned False)] 2)\<lparr>world := 2\<rparr>
            = ex_day [ex_rec False 1000 True] [ex_tomb 1] 2
              [Posted 1 (ReqDelete ''water'' JNull) (Returned False)] 2"
    by (simp add: ex_day_def)
  have pulls: "pull_stores ex_gateway ''2026-02-12'' DATE_INDEXED_STORES 0
                 (ex_day [ex_rec False 1000 True] [ex_tomb 1] 2
                    [Posted 1 (ReqDelete ''water'' JNull) (Returned False)] 2)
               = (1, ex_day [ex_back] [ex_tomb 1] 2
                       (Posted 1 (ReqDelete ''water'' JNull) (Returned False) # ex_reads) 3)"
    by (simp add: DATE_INDEXED_STORES_def ex_day_pull_other ex_day_pull_water ex_reads_def)
  from ex_day_push pulls show ?thesis
    by (simp add: syncNow_def Let_def w0 w1 del: push_loop.simps)
qed

lemma ex_day_back:
  "get ''water'' ex_by_date (ex_day [ex_back] q g snt w) = Inr [ex_back]"
  by (simp add: get_def open_store_def ALL_STORES_def ex_by_date_def js_or_def truthy_def
          DATE_INDEXED_STORES_def index_getAll_def valid_key_def Let_def ex_back_def getf_def key_enc_def
          ex_day_def)

text \<open>
  C7.  The record is not excluded from every \<open>get\<close> that follows its
  \<open>delete\<close>.  Record 1 of \<open>water\<close>, never pulled and so without a row
  index, is deleted: \<open>delete\<close> returns \<open>true\<close> and \<open>get\<close> for its date
  returns nothing.  The next sync cycle POSTs the \<open>delete\<close> without a row
  index, which the gateway refuses, and then pulls the day's rows; the row with
  the record's date and time is stamped \<open>_deleted = false\<close> at the time of
  the merge, later than the tombstone, so the local-wins test fails and the
  merged record replaces the tombstone.  \<open>get\<close> for the date now returns
  the record with key 1 and \<open>_deleted = false\<close>, while its \<open>delete\<close>
  entry is still queued, with one retry, and nothing was purged.
\<close>

theorem delete_undone_by_pull:
  "fst (delete ex_gateway ''water'' (JNum 1) (ex_day [ex_rec True 500 False] [] 1 [] 0)) = Inr True
   \<and> get ''water'' ex_by_date
        (snd (delete ex_gateway ''water'' (JNum 1) (ex_day [ex_rec True 500 False] [] 1 [] 0))) = Inr []
   \<and> get ''water'' ex_by_date
        (snd (syncNow ex_gateway
           (snd (delete ex_gateway ''water'' (JNum 1) (ex_day [ex_rec True 500 False] [] 1 [] 0)))))
      = Inr [ex_back]
   \<and> getf ex_back ''id'' = JNum 1 \<and> getf ex_back ''_deleted'' = JBool False
   \<and> queue (snd (syncNow ex_gateway
           (snd (delete ex_gateway ''water'' (JNum 1) (ex_day [ex_rec True 500 False] [] 1 [] 0)))))
      = [ex_tomb 1]
   \<and> sent (snd (syncNow ex_gateway
           (snd (delete ex_gateway ''water'' (JNum 1) (ex_day [ex_rec True 500 False] [] 1 [] 0)))))
      = Posted 1 (ReqDelete ''water'' JNull) (Returned False) # ex_reads"
proof -
  have "getf ex_back ''id'' = JNum 1 \<and> getf ex_back ''_deleted'' = JBool False"
    by (simp add: ex_back_def getf_def)
  with ex_day_delete ex_day_hidden ex_day_cycle
    ex_day_back [of "[ex_tomb 1]" 2 "Posted 1 (ReqDelete ''water'' JNull) (Returned False) # ex_reads" 3]
  show ?thesis by simp
qed

theorem delete_undone_by_pull_witness:
  "\<exists>r. get ''water'' ex_by_date
        (snd (syncNow ex_gateway
           (snd (delete ex_gateway ''water'' (JNum 1) (ex_day [ex_rec True 500 False] [] 1 [] 0)))))
      = Inr [r]
    \<and> getf r (keyPath ''water'') = JNum 1 \<and> \<not> truthy (getf r ''_deleted'')"
  using delete_undone_by_pull by (simp add: keyPath_def truthy_def)

end
